theory Spec2Isabelle
  imports Main "HOL-Library.Word"
begin

unbundle bit_operations_syntax

section \<open>Data model of mymalloc.c\<close>

text \<open>
  Addresses are natural numbers and \<open>0\<close> is the null pointer. The C types are
  those of an LP64 target: \<open>unsigned int\<close> and \<open>int\<close> have 32 bits, \<open>size_t\<close>
  and pointers have 64 bits. An \<open>unsigned int\<close> is a \<open>32 word\<close>; a conversion to
  \<open>int\<close> reads the same 32 bits as two's complement (\<open>sint\<close>).
\<close>

type_synonym ptr = nat

record BlockHeader =
  size_b :: "32 word"
  in_use :: int
  prev_phys :: ptr
  next_phys :: ptr
  prev_free :: ptr
  next_free :: ptr

text \<open>
  The globals \<open>bins\<close> and \<open>heap_tail\<close>, the block headers in memory (a store from
  the address of a header to its fields) and the program break moved by
  \<open>sbrk\<close> and \<open>brk\<close>.
\<close>

record state =
  bins :: "nat \<Rightarrow> ptr"
  heap_tail :: ptr
  mem :: "ptr \<Rightarrow> BlockHeader"
  brk :: ptr

definition MINIMUM_ALLOCATION :: nat where
  "MINIMUM_ALLOCATION = 16"

definition SIZE_MULTIPLE :: nat where
  "SIZE_MULTIPLE = 8"

definition BIGGEST_BINNED_SIZE :: nat where
  "BIGGEST_BINNED_SIZE = 512"

definition NUM_BINS :: nat where
  "NUM_BINS = 2 + ((BIGGEST_BINNED_SIZE - MINIMUM_ALLOCATION) div SIZE_MULTIPLE)"

definition OVERFLOW_BIN :: nat where
  "OVERFLOW_BIN = NUM_BINS - 1"

text \<open>
  \<open>offsetof(BlockHeader, prev_free)\<close>: two 4-byte integers and two 8-byte
  pointers come before \<open>prev_free\<close>.
\<close>

definition BLOCK_HEADER_SIZE :: nat where
  "BLOCK_HEADER_SIZE = 4 + 4 + 8 + 8"

definition MINIMUM_BLOCK_SIZE :: nat where
  "MINIMUM_BLOCK_SIZE = MINIMUM_ALLOCATION + BLOCK_HEADER_SIZE"

definition empty_heap :: "(ptr \<Rightarrow> BlockHeader) \<Rightarrow> ptr \<Rightarrow> state" where
  "empty_heap m b = \<lparr>bins = (\<lambda>_. 0), heap_tail = 0, mem = m, brk = b\<rparr>"

section \<open>Stores to one header field\<close>

definition set_size :: "ptr \<Rightarrow> 32 word \<Rightarrow> state \<Rightarrow> state" where
  "set_size p v s = s\<lparr>mem := (mem s)(p := (mem s p)\<lparr>size_b := v\<rparr>)\<rparr>"

definition set_in_use :: "ptr \<Rightarrow> int \<Rightarrow> state \<Rightarrow> state" where
  "set_in_use p v s = s\<lparr>mem := (mem s)(p := (mem s p)\<lparr>in_use := v\<rparr>)\<rparr>"

definition set_prev_phys :: "ptr \<Rightarrow> ptr \<Rightarrow> state \<Rightarrow> state" where
  "set_prev_phys p v s = s\<lparr>mem := (mem s)(p := (mem s p)\<lparr>prev_phys := v\<rparr>)\<rparr>"

definition set_next_phys :: "ptr \<Rightarrow> ptr \<Rightarrow> state \<Rightarrow> state" where
  "set_next_phys p v s = s\<lparr>mem := (mem s)(p := (mem s p)\<lparr>next_phys := v\<rparr>)\<rparr>"

definition set_prev_free :: "ptr \<Rightarrow> ptr \<Rightarrow> state \<Rightarrow> state" where
  "set_prev_free p v s = s\<lparr>mem := (mem s)(p := (mem s p)\<lparr>prev_free := v\<rparr>)\<rparr>"

definition set_next_free :: "ptr \<Rightarrow> ptr \<Rightarrow> state \<Rightarrow> state" where
  "set_next_free p v s = s\<lparr>mem := (mem s)(p := (mem s p)\<lparr>next_free := v\<rparr>)\<rparr>"

definition set_bin :: "nat \<Rightarrow> ptr \<Rightarrow> state \<Rightarrow> state" where
  "set_bin i v s = s\<lparr>bins := (bins s)(i := v)\<rparr>"

section \<open>Math helpers\<close>

definition ptr_add_bytes :: "ptr \<Rightarrow> int \<Rightarrow> ptr" where
  "ptr_add_bytes p byte_offs = nat (int p + byte_offs)"

definition block_to_data :: "ptr \<Rightarrow> ptr" where
  "block_to_data block = ptr_add_bytes block (int BLOCK_HEADER_SIZE)"

definition data_to_block :: "ptr \<Rightarrow> ptr" where
  "data_to_block data = ptr_add_bytes data (- int BLOCK_HEADER_SIZE)"

definition round_up_size :: "32 word \<Rightarrow> 32 word" where
  "round_up_size data_size =
     (if data_size = 0 then 0
      else if data_size < word_of_nat MINIMUM_ALLOCATION then word_of_nat MINIMUM_ALLOCATION
      else (data_size + (word_of_nat SIZE_MULTIPLE - 1)) AND NOT (word_of_nat SIZE_MULTIPLE - 1))"

definition size_to_bin :: "32 word \<Rightarrow> nat" where
  "size_to_bin data_size =
     (let bin = (round_up_size data_size - word_of_nat MINIMUM_ALLOCATION) div word_of_nat SIZE_MULTIPLE
      in if unat bin > OVERFLOW_BIN then OVERFLOW_BIN else unat bin)"

section \<open>Physical list\<close>

definition link_onto_end :: "ptr \<Rightarrow> state \<Rightarrow> state" where
  "link_onto_end new_block s =
     (if heap_tail s = 0 then
        (let s1 = set_prev_phys new_block 0 s;
             s2 = set_next_phys new_block 0 s1
         in s2\<lparr>heap_tail := new_block\<rparr>)
      else
        (let old_tail = heap_tail s;
             s1 = set_next_phys old_tail new_block s;
             s2 = set_next_phys new_block 0 s1;
             s3 = set_prev_phys new_block old_tail s2
         in s3\<lparr>heap_tail := new_block\<rparr>))"

definition unlink_block :: "state \<Rightarrow> state" where
  "unlink_block s =
     (if heap_tail s = 0 then s
      else if prev_phys (mem s (heap_tail s)) = 0 then s\<lparr>heap_tail := 0\<rparr>
      else
        (let new_tail = prev_phys (mem s (heap_tail s));
             s1 = set_next_phys new_tail 0 s
         in s1\<lparr>heap_tail := new_tail\<rparr>))"

section \<open>Free lists\<close>

definition insert_into_bin :: "ptr \<Rightarrow> state \<Rightarrow> state" where
  "insert_into_bin block s =
     (let bin_index = size_to_bin (size_b (mem s block))
      in if bins s bin_index = 0 then
           (let s1 = set_prev_free block 0 s;
                s2 = set_next_free block 0 s1
            in set_bin bin_index block s2)
         else
           (let old_head = bins s bin_index;
                s1 = set_prev_free old_head block s;
                s2 = set_next_free block old_head s1;
                s3 = set_prev_free block 0 s2
            in set_bin bin_index block s3))"

definition remove_block :: "ptr \<Rightarrow> state \<Rightarrow> state" where
  "remove_block block s =
     (let bin_index = size_to_bin (size_b (mem s block));
          pf = prev_free (mem s block);
          nf = next_free (mem s block)
      in if pf = 0 \<and> nf = 0 then set_bin bin_index 0 s
         else if pf = 0 \<and> nf \<noteq> 0 then
           set_prev_free nf 0 (set_bin bin_index nf s)
         else if pf \<noteq> 0 \<and> nf = 0 then set_next_free pf 0 s
         else set_prev_free nf pf (set_next_free pf nf s))"

section \<open>Coalescing\<close>

text \<open>
  The sum for \<open>new_size\<close> is computed in \<open>size_t\<close>, narrowed to \<open>int\<close> and stored
  in the \<open>unsigned int\<close> field: the field receives the sum modulo \<open>2 ^ 32\<close>, which
  is the sum of the 32-bit words.
\<close>

definition splice_next :: "ptr \<Rightarrow> state \<Rightarrow> state" where
  "splice_next coalesced_block s =
     (if next_phys (mem s coalesced_block) = 0 then s\<lparr>heap_tail := coalesced_block\<rparr>
      else set_prev_phys (next_phys (mem s coalesced_block)) coalesced_block s)"

definition coalesce_both :: "ptr \<Rightarrow> state \<Rightarrow> ptr \<times> state" where
  "coalesce_both block s =
     (let s1 = remove_block (next_phys (mem s block)) s;
          s2 = remove_block (prev_phys (mem s1 block)) s1;
          new_size = size_b (mem s2 (prev_phys (mem s2 block)))
                     + (size_b (mem s2 block) + word_of_nat BLOCK_HEADER_SIZE)
                     + (size_b (mem s2 (next_phys (mem s2 block))) + word_of_nat BLOCK_HEADER_SIZE);
          coalesced_block = prev_phys (mem s2 block);
          s3 = set_size coalesced_block new_size s2;
          s4 = set_in_use coalesced_block 0 s3;
          s5 = set_next_phys coalesced_block
                 (next_phys (mem s4 (next_phys (mem s4 block)))) s4
      in (coalesced_block, splice_next coalesced_block s5))"

definition coalesce_prev :: "ptr \<Rightarrow> state \<Rightarrow> ptr \<times> state" where
  "coalesce_prev block s =
     (let s1 = remove_block (prev_phys (mem s block)) s;
          new_size = size_b (mem s1 (prev_phys (mem s1 block)))
                     + (size_b (mem s1 block) + word_of_nat BLOCK_HEADER_SIZE);
          coalesced_block = prev_phys (mem s1 block);
          s2 = set_size coalesced_block new_size s1;
          s3 = set_in_use coalesced_block 0 s2;
          s4 = set_next_phys coalesced_block (next_phys (mem s3 block)) s3;
          s5 = set_prev_phys (next_phys (mem s4 coalesced_block)) coalesced_block s4
      in (coalesced_block, s5))"

definition coalesce_prev_tail :: "ptr \<Rightarrow> state \<Rightarrow> ptr \<times> state" where
  "coalesce_prev_tail block s =
     (let s1 = remove_block (prev_phys (mem s block)) s;
          new_size = size_b (mem s1 (prev_phys (mem s1 block)))
                     + (size_b (mem s1 block) + word_of_nat BLOCK_HEADER_SIZE);
          coalesced_block = prev_phys (mem s1 block);
          s2 = set_size coalesced_block new_size s1;
          s3 = set_in_use coalesced_block 0 s2;
          s4 = set_next_phys coalesced_block 0 s3
      in (coalesced_block, s4\<lparr>heap_tail := coalesced_block\<rparr>))"

definition coalesce_next :: "ptr \<Rightarrow> state \<Rightarrow> ptr \<times> state" where
  "coalesce_next block s =
     (let s1 = remove_block (next_phys (mem s block)) s;
          new_size = size_b (mem s1 (next_phys (mem s1 block)))
                     + (size_b (mem s1 block) + word_of_nat BLOCK_HEADER_SIZE);
          coalesced_block = block;
          s2 = set_size coalesced_block new_size s1;
          s3 = set_in_use coalesced_block 0 s2;
          s4 = set_next_phys coalesced_block
                 (next_phys (mem s3 (next_phys (mem s3 block)))) s3
      in (coalesced_block, splice_next coalesced_block s4))"

definition coalesce :: "ptr \<Rightarrow> state \<Rightarrow> ptr \<times> state" where
  "coalesce block s =
     (let pp = prev_phys (mem s block);
          np = next_phys (mem s block)
      in if pp \<noteq> 0 \<and> np \<noteq> 0 then
           (if in_use (mem s pp) = 0 \<and> in_use (mem s np) = 0 then coalesce_both block s
            else if in_use (mem s pp) = 0 \<and> in_use (mem s np) = 1 then coalesce_prev block s
            else if in_use (mem s pp) = 1 \<and> in_use (mem s np) = 0 then coalesce_next block s
            else (block, s))
         else if pp \<noteq> 0 \<and> np = 0 then
           (if in_use (mem s pp) = 0 then coalesce_prev_tail block s else (block, s))
         else if pp = 0 \<and> np \<noteq> 0 then
           (if in_use (mem s np) = 0 then coalesce_next block s else (block, s))
         else (block, s))"

section \<open>Splitting\<close>

text \<open>
  \<open>split_block\<close> takes the request as an \<open>int\<close>. The offset handed to
  \<open>ptr_add_bytes\<close> is \<open>allocation_size + BLOCK_HEADER_SIZE\<close>, a \<open>size_t\<close>,
  narrowed to the \<open>int\<close> parameter \<open>byte_offs\<close>: \<open>to_int\<close> is that narrowing.
  The two size fields receive their values modulo \<open>2 ^ 32\<close>.
\<close>

definition to_int :: "int \<Rightarrow> int" where
  "to_int x = sint (word_of_int x :: 32 word)"

definition split_block :: "ptr \<Rightarrow> int \<Rightarrow> state \<Rightarrow> ptr \<times> state" where
  "split_block block allocation_size s =
     (let old_block_size = sint (size_b (mem s block));
          s1 = remove_block block s;
          allocated_portion = block;
          empty_portion = ptr_add_bytes block (to_int (allocation_size + int BLOCK_HEADER_SIZE));
          next_block = next_phys (mem s1 block);
          s2 = set_in_use allocated_portion 1 s1;
          s3 = set_size allocated_portion (word_of_int allocation_size) s2;
          s4 = set_in_use empty_portion 0 s3;
          s5 = set_size empty_portion
                 (word_of_int ((old_block_size - allocation_size) - int BLOCK_HEADER_SIZE)) s4;
          s6 = set_next_phys allocated_portion empty_portion s5;
          s7 = set_prev_phys empty_portion allocated_portion s6;
          s8 = set_next_phys empty_portion next_block s7;
          s9 = (if next_block \<noteq> 0 then set_prev_phys next_block empty_portion s8
                else s8\<lparr>heap_tail := empty_portion\<rparr>)
      in (allocated_portion, insert_into_bin empty_portion s9))"

section \<open>Public functions\<close>

text \<open>
  The \<open>for\<close> loop of \<open>my_malloc\<close> over the small bins: the result is
  \<open>block_to_split\<close> (null when no bin qualifies) and the state after
  \<open>remove_block\<close>.
\<close>

function find_split :: "32 word \<Rightarrow> nat \<Rightarrow> state \<Rightarrow> ptr \<times> state" where
  "find_split sz index s =
     (if index < OVERFLOW_BIN then
        (if bins s index \<noteq> 0 then
           (let block_to_split = bins s index
            in if unat (size_b (mem s block_to_split) - sz) < MINIMUM_BLOCK_SIZE
               then find_split sz (index + 1) s
               else (block_to_split, remove_block block_to_split s))
         else find_split sz (index + 1) s)
      else (0, s))"
  by pat_completeness auto
termination
  by (relation "measure (\<lambda>(sz, index, s). OVERFLOW_BIN - index)") auto

text \<open>
  The \<open>while\<close> loop over the overflow bin follows \<open>next_free\<close> until it meets
  null or a block that is big enough; on a cyclic list without such a block it
  does not return, which is the value \<open>None\<close>.
\<close>

partial_function (option) first_fit :: "(ptr \<Rightarrow> BlockHeader) \<Rightarrow> 32 word \<Rightarrow> ptr \<Rightarrow> ptr option" where
  "first_fit m sz current =
     (if current = 0 then Some 0
      else if sz \<le> size_b (m current) then Some current
      else first_fit m sz (next_free (m current)))"

declare first_fit.simps [code]

definition malloc_small :: "32 word \<Rightarrow> state \<Rightarrow> ptr \<times> state" where
  "malloc_small sz s =
     (let bin_index = size_to_bin sz;
          current = bins s bin_index
      in if bin_index < OVERFLOW_BIN \<and> current \<noteq> 0 then
           (current, remove_block current (set_in_use current 1 s))
         else if bin_index < OVERFLOW_BIN \<and> current = 0 then
           (let (block_to_split, s1) =
                  find_split sz (size_to_bin (sz + word_of_nat MINIMUM_BLOCK_SIZE)) s
            in if block_to_split \<noteq> 0 then split_block block_to_split (sint sz) s1
               else (0, s1))
         else (0, s))"

definition malloc_overflow :: "32 word \<Rightarrow> state \<Rightarrow> (ptr \<times> state) option" where
  "malloc_overflow sz s =
     (case first_fit (mem s) sz (bins s OVERFLOW_BIN) of
        None \<Rightarrow> None
      | Some current \<Rightarrow>
          (if current = 0 then Some (0, s)
           else if unat (size_b (mem s current) - sz) \<ge> MINIMUM_BLOCK_SIZE
             then Some (split_block current (sint sz) s)
           else Some (current, remove_block current (set_in_use current 1 s))))"

text \<open>
  \<open>sbrk\<close> returns the old break and raises the break by its argument, here
  \<open>size + BLOCK_HEADER_SIZE\<close> computed in \<open>size_t\<close>.
\<close>

definition malloc_grow :: "32 word \<Rightarrow> state \<Rightarrow> ptr \<times> state" where
  "malloc_grow sz s =
     (let new_allocation = brk s;
          s1 = s\<lparr>brk := brk s + (unat sz + BLOCK_HEADER_SIZE)\<rparr>;
          s2 = set_size new_allocation sz s1;
          s3 = set_in_use new_allocation 1 s2
      in (new_allocation, link_onto_end new_allocation s3))"

definition my_malloc :: "32 word \<Rightarrow> state \<Rightarrow> (ptr \<times> state) option" where
  "my_malloc size0 s =
     (if size0 = 0 then Some (0, s)
      else
        (let sz = round_up_size size0;
             (new_allocation, s1) = malloc_small sz s
         in case (if new_allocation = 0 then malloc_overflow sz s1
                  else Some (new_allocation, s1)) of
              None \<Rightarrow> None
            | Some (new_allocation, s2) \<Rightarrow>
                (let (new_allocation, s3) =
                       (if new_allocation = 0 then malloc_grow sz s2
                        else (new_allocation, s2))
                 in Some (block_to_data new_allocation, s3))))"

definition my_free :: "ptr \<Rightarrow> state \<Rightarrow> state" where
  "my_free p s =
     (if p = 0 then s
      else
        (let (block_to_free, s1) = coalesce (data_to_block p) s
         in if next_phys (mem s1 block_to_free) = 0 then
              (unlink_block s1)\<lparr>brk := block_to_free\<rparr>
            else insert_into_bin block_to_free (set_in_use block_to_free 0 s1)))"

section \<open>Concrete heaps\<close>

text \<open>
  Memory whose bytes are all zero, and the heaps reached from the empty heap
  over it by one and by two allocations of 24 bytes.
\<close>

definition zero_header :: BlockHeader where
  "zero_header = \<lparr>size_b = 0, in_use = 0, prev_phys = 0, next_phys = 0, prev_free = 0, next_free = 0\<rparr>"

definition zero_mem :: "ptr \<Rightarrow> BlockHeader" where
  "zero_mem = (\<lambda>_. zero_header)"

definition one_block :: "(ptr \<Rightarrow> BlockHeader) \<Rightarrow> ptr \<Rightarrow> state" where
  "one_block m b =
     \<lparr>bins = (\<lambda>_. 0), heap_tail = b,
      mem = m(b := (m b)\<lparr>size_b := 24, in_use := 1, prev_phys := 0, next_phys := 0\<rparr>),
      brk = b + 48\<rparr>"

definition two_blocks :: "(ptr \<Rightarrow> BlockHeader) \<Rightarrow> ptr \<Rightarrow> state" where
  "two_blocks m b =
     \<lparr>bins = (\<lambda>_. 0), heap_tail = b + 48,
      mem = m(b := (m b)\<lparr>size_b := 24, in_use := 1, prev_phys := 0, next_phys := b + 48\<rparr>,
              b + 48 := (m (b + 48))\<lparr>size_b := 24, in_use := 1, next_phys := 0, prev_phys := b\<rparr>),
      brk = b + 96\<rparr>"

text \<open>
  The heap of two blocks after the first one has been released: it heads bin 1.
\<close>

definition first_freed :: "(ptr \<Rightarrow> BlockHeader) \<Rightarrow> ptr \<Rightarrow> state" where
  "first_freed m b =
     \<lparr>bins = (\<lambda>_. 0)(1 := b), heap_tail = b + 48,
      mem = m(b := (m b)\<lparr>size_b := 24, in_use := 0, prev_phys := 0, next_phys := b + 48,
                           prev_free := 0, next_free := 0\<rparr>,
              b + 48 := (m (b + 48))\<lparr>size_b := 24, in_use := 1, next_phys := 0, prev_phys := b\<rparr>),
      brk = b + 96\<rparr>"

section \<open>Well-formed heaps\<close>

text \<open>
  The blocks of the heap are those met by walking \<open>prev_phys\<close> from
  \<open>heap_tail\<close>. The coalescing invariant: a free block has no free physical
  neighbour.
\<close>

inductive_set phys_blocks :: "state \<Rightarrow> ptr set" for s :: state where
  tail: "heap_tail s \<noteq> 0 \<Longrightarrow> heap_tail s \<in> phys_blocks s"
| prev: "b \<in> phys_blocks s \<Longrightarrow> prev_phys (mem s b) \<noteq> 0 \<Longrightarrow> prev_phys (mem s b) \<in> phys_blocks s"

definition no_adjacent_free :: "state \<Rightarrow> bool" where
  "no_adjacent_free s =
     (\<forall>b \<in> phys_blocks s. in_use (mem s b) = 0 \<longrightarrow>
        (next_phys (mem s b) = 0 \<or> in_use (mem s (next_phys (mem s b))) = 1)
        \<and> (prev_phys (mem s b) = 0 \<or> in_use (mem s (prev_phys (mem s b))) = 1))"

text \<open>
  The states a client can reach. \<open>base\<close> is the program break before the first
  call, \<open>A\<close> the set of pointers handed out by \<open>my_malloc\<close> and not yet given
  back: \<open>my_free\<close> is only called on null or on a member of \<open>A\<close>. \<open>lim\<close> bounds
  the requests and the extent of the heap in bytes.
\<close>

inductive reach :: "nat \<Rightarrow> ptr \<Rightarrow> state \<Rightarrow> ptr set \<Rightarrow> bool" for lim :: nat and base :: ptr where
  init: "0 < base \<Longrightarrow> reach lim base (empty_heap m base) {}"
| malloc: "reach lim base s A \<Longrightarrow> my_malloc n s = Some (p, s') \<Longrightarrow> unat n < lim \<Longrightarrow>
           brk s' - base < lim \<Longrightarrow> reach lim base s' (if p = 0 then A else insert p A)"
| free: "reach lim base s A \<Longrightarrow> p \<in> A \<Longrightarrow> reach lim base (my_free p s) (A - {p})"
| free_null: "reach lim base s A \<Longrightarrow> reach lim base (my_free 0 s) A"

text \<open>
  A free list as a doubly linked list: \<open>dll m prev p xs\<close> holds when following \<open>next_free\<close> from \<open>p\<close> visits exactly \<open>xs\<close>
  and then null, with \<open>prev_free\<close> pointing back (\<open>prev\<close> for the first).
\<close>

fun dll :: "(ptr \<Rightarrow> BlockHeader) \<Rightarrow> ptr \<Rightarrow> ptr \<Rightarrow> ptr list \<Rightarrow> bool" where
  "dll m prev p [] = (p = 0)"
| "dll m prev p (x # xs) =
     (p = x \<and> x \<noteq> 0 \<and> prev_free (m x) = prev \<and> dll m x (next_free (m x)) xs)"

text \<open>
  The physical part of the invariants of the data model, for the set \<open>B\<close> of
  block addresses, stated over the heap tail \<open>ht\<close>, the break \<open>bk\<close> and the
  header fields as functions of the address (\<open>sz\<close> the size, \<open>us\<close> the in-use
  flag, \<open>pp\<close> and \<open>np\<close> the physical links): the blocks tile the heap from
  \<open>base\<close> to the break, the physical links follow the addresses, the heap tail
  is the last block, sizes are multiples of 8 and at least 16, and no free
  block has a free neighbour or is the tail. The heap is smaller than
  \<open>2 ^ 31\<close> bytes.
\<close>

definition pwf :: "ptr \<Rightarrow> ptr \<Rightarrow> ptr \<Rightarrow> (ptr \<Rightarrow> nat) \<Rightarrow> (ptr \<Rightarrow> int) \<Rightarrow> (ptr \<Rightarrow> ptr) \<Rightarrow> (ptr \<Rightarrow> ptr)
    \<Rightarrow> ptr set \<Rightarrow> bool" where
  "pwf base ht bk sz us pp np B =
     (0 < base \<and> base \<le> bk \<and> bk - base < 2 ^ 31
      \<and> (B = {} \<longrightarrow> ht = 0 \<and> bk = base)
      \<and> (B \<noteq> {} \<longrightarrow> base \<in> B \<and> ht \<in> B \<and> ht + 24 + sz ht = bk)
      \<and> (\<forall>b \<in> B. base \<le> b \<and> b + 24 + sz b \<le> bk)
      \<and> (\<forall>b \<in> B. \<forall>c \<in> B. b < c \<longrightarrow> b + 24 + sz b \<le> c)
      \<and> (\<forall>b \<in> B. np b = (if b + 24 + sz b = bk then 0 else b + 24 + sz b)
                   \<and> (b + 24 + sz b \<noteq> bk \<longrightarrow> b + 24 + sz b \<in> B))
      \<and> (\<forall>b \<in> B. (b = base \<longrightarrow> pp b = 0)
                   \<and> (b \<noteq> base \<longrightarrow> pp b \<in> B \<and> pp b + 24 + sz (pp b) = b))
      \<and> (\<forall>b \<in> B. us b = 0 \<or> us b = 1)
      \<and> (\<forall>b \<in> B. 16 \<le> sz b \<and> 8 dvd sz b)
      \<and> (\<forall>b \<in> B. us b = 0 \<longrightarrow>
             b + 24 + sz b \<noteq> bk \<and> us (b + 24 + sz b) = 1 \<and> (b \<noteq> base \<longrightarrow> us (pp b) = 1)))"

definition sizes :: "state \<Rightarrow> ptr \<Rightarrow> nat" where
  "sizes s = (\<lambda>q. unat (size_b (mem s q)))"

definition uses :: "state \<Rightarrow> ptr \<Rightarrow> int" where
  "uses s = (\<lambda>q. in_use (mem s q))"

definition prevs :: "state \<Rightarrow> ptr \<Rightarrow> ptr" where
  "prevs s = (\<lambda>q. prev_phys (mem s q))"

definition nexts :: "state \<Rightarrow> ptr \<Rightarrow> ptr" where
  "nexts s = (\<lambda>q. next_phys (mem s q))"

definition phys_wf :: "ptr \<Rightarrow> state \<Rightarrow> ptr set \<Rightarrow> bool" where
  "phys_wf base s B =
     pwf base (heap_tail s) (brk s) (sizes s) (uses s) (prevs s) (nexts s) B"

text \<open>
  The free lists, for the set \<open>S\<close> of blocks that are on a list: bin \<open>i\<close> is
  the doubly linked list \<open>F i\<close>, which holds each block of \<open>S\<close> whose size
  belongs to bin \<open>i\<close> exactly once and nothing else. In a well-formed heap
  \<open>S\<close> is the set of free blocks.
\<close>

definition unlink_mem :: "(ptr \<Rightarrow> BlockHeader) \<Rightarrow> ptr \<Rightarrow> (ptr \<Rightarrow> BlockHeader)" where
  "unlink_mem m b =
     (let pf = prev_free (m b); nf = next_free (m b)
      in if pf = 0 \<and> nf = 0 then m
         else if pf = 0 \<and> nf \<noteq> 0 then m(nf := (m nf)\<lparr>prev_free := 0\<rparr>)
         else if pf \<noteq> 0 \<and> nf = 0 then m(pf := (m pf)\<lparr>next_free := 0\<rparr>)
         else (let m1 = m(pf := (m pf)\<lparr>next_free := nf\<rparr>)
               in m1(nf := (m1 nf)\<lparr>prev_free := pf\<rparr>)))"

definition lists_wf :: "state \<Rightarrow> ptr set \<Rightarrow> (nat \<Rightarrow> ptr list) \<Rightarrow> bool" where
  "lists_wf s S F =
     (\<forall>i. dll (mem s) 0 (bins s i) (F i) \<and> distinct (F i)
          \<and> set (F i) = {b \<in> S. size_to_bin (size_b (mem s b)) = i})"

definition bins_wf :: "state \<Rightarrow> ptr set \<Rightarrow> (nat \<Rightarrow> ptr list) \<Rightarrow> bool" where
  "bins_wf s B F = lists_wf s {b \<in> B. in_use (mem s b) = 0} F"

definition heap_wf :: "ptr \<Rightarrow> state \<Rightarrow> ptr set \<Rightarrow> bool" where
  "heap_wf base s A =
     (\<exists>B F. phys_wf base s B \<and> bins_wf s B F
            \<and> A = {block_to_data b |b. b \<in> B \<and> in_use (mem s b) = 1})"

text \<open>
  A heap of more than \<open>2 ^ 32\<close> bytes, as it develops from the empty heap at
  4096 over zeroed memory under five allocations, two releases and one more
  allocation. \<open>header sz u pp np\<close> is a block header that is on no free list.
\<close>

definition header :: "32 word \<Rightarrow> int \<Rightarrow> ptr \<Rightarrow> ptr \<Rightarrow> BlockHeader" where
  "header sz u pp np =
     \<lparr>size_b = sz, in_use = u, prev_phys = pp, next_phys = np, prev_free = 0, next_free = 0\<rparr>"

definition big1 :: state where
  "big1 = \<lparr>bins = (\<lambda>_. 0), heap_tail = 4096,
            mem = zero_mem(4096 := header 2147483520 1 0 0),
            brk = 2147487640\<rparr>"

definition big2 :: state where
  "big2 = \<lparr>bins = (\<lambda>_. 0), heap_tail = 2147487640,
            mem = zero_mem(4096 := header 2147483520 1 0 2147487640,
                           2147487640 := header 16 1 4096 0),
            brk = 2147487680\<rparr>"

definition big3 :: state where
  "big3 = \<lparr>bins = (\<lambda>_. 0), heap_tail = 2147487680,
            mem = zero_mem(4096 := header 2147483520 1 0 2147487640,
                           2147487640 := header 16 1 4096 2147487680,
                           2147487680 := header 16 1 2147487640 0),
            brk = 2147487720\<rparr>"

definition big4 :: state where
  "big4 = \<lparr>bins = (\<lambda>_. 0), heap_tail = 2147487720,
            mem = zero_mem(4096 := header 2147483520 1 0 2147487640,
                           2147487640 := header 16 1 4096 2147487680,
                           2147487680 := header 16 1 2147487640 2147487720,
                           2147487720 := header 3221225472 1 2147487680 0),
            brk = 5368713216\<rparr>"

definition big5 :: state where
  "big5 = \<lparr>bins = (\<lambda>_. 0), heap_tail = 5368713216,
            mem = zero_mem(4096 := header 2147483520 1 0 2147487640,
                           2147487640 := header 16 1 4096 2147487680,
                           2147487680 := header 16 1 2147487640 2147487720,
                           2147487720 := header 3221225472 1 2147487680 5368713216,
                           5368713216 := header 16 1 2147487720 0),
            brk = 5368713256\<rparr>"

definition big6 :: state where
  "big6 = \<lparr>bins = (\<lambda>_. 0)(0 := 2147487640), heap_tail = 5368713216,
            mem = zero_mem(4096 := header 2147483520 1 0 2147487640,
                           2147487640 := header 16 0 4096 2147487680,
                           2147487680 := header 16 1 2147487640 2147487720,
                           2147487720 := header 3221225472 1 2147487680 5368713216,
                           5368713216 := header 16 1 2147487720 0),
            brk = 5368713256\<rparr>"

definition big7 :: state where
  "big7 = \<lparr>bins = (\<lambda>_. 0)(0 := 2147487640, 63 := 2147487720), heap_tail = 5368713216,
            mem = zero_mem(4096 := header 2147483520 1 0 2147487640,
                           2147487640 := header 16 0 4096 2147487680,
                           2147487680 := header 16 1 2147487640 2147487720,
                           2147487720 := header 3221225472 0 2147487680 5368713216,
                           5368713216 := header 16 1 2147487720 0),
            brk = 5368713256\<rparr>"

definition big8 :: state where
  "big8 = \<lparr>bins = (\<lambda>_. 0)(0 := 2147487640, 63 := 4096), heap_tail = 5368713216,
            mem = zero_mem(4096 := header 1073741800 0 2147487720 5368713216,
                           2147487640 := header 16 0 4096 2147487680,
                           2147487680 := header 16 1 2147487640 2147487720,
                           2147487720 := header 2147483648 1 2147487680 4096,
                           5368713216 := header 16 1 4096 0),
            brk = 5368713256\<rparr>"

text \<open>
  What an allocation reads from the bins: every non-empty small bin is headed
  by a block of the size of that bin, and the list of the overflow bin ends at
  null. \<open>wrapped\<close> is the heap after the request \<open>2 ^ 32 - 1\<close> on the empty heap at
  4096.
\<close>

definition bins_sound :: "state \<Rightarrow> bool" where
  "bins_sound s =
     ((\<exists>xs. dll (mem s) 0 (bins s OVERFLOW_BIN) xs)
      \<and> (\<forall>i < OVERFLOW_BIN. bins s i \<noteq> 0 \<longrightarrow>
             unat (size_b (mem s (bins s i))) = MINIMUM_ALLOCATION + SIZE_MULTIPLE * i))"



text \<open>
  The first fit in a free list: \<open>first_fit_at m sz p xs c\<close> holds when the
  walk along \<open>next_free\<close> from \<open>p\<close> passes the blocks \<open>xs\<close>, in this order,
  each of them smaller than \<open>sz\<close>, and then stands at \<open>c\<close>.
\<close>

fun first_fit_at :: "(ptr \<Rightarrow> BlockHeader) \<Rightarrow> 32 word \<Rightarrow> ptr \<Rightarrow> ptr list \<Rightarrow> ptr \<Rightarrow> bool" where
  "first_fit_at m sz p [] c = (p = c)"
| "first_fit_at m sz p (x # xs) c =
     (p = x \<and> x \<noteq> 0 \<and> size_b (m x) < sz \<and> first_fit_at m sz (next_free (m x)) xs c)"

text \<open>
  The heap at 4096 after allocating 600, 16, 2000 and 16 bytes and releasing
  the third and then the first block: the overflow bin lists the block of 600
  bytes before the block of 2000 bytes.
\<close>

definition two_overflow :: state where
  "two_overflow =
     \<lparr>bins = (\<lambda>_. 0)(63 := 4096), heap_tail = 6784,
      mem = zero_mem
        (4096 := \<lparr>size_b = 600, in_use = 0, prev_phys = 0, next_phys = 4720,
                  prev_free = 0, next_free = 4760\<rparr>,
         4720 := header 16 1 4096 4760,
         4760 := \<lparr>size_b = 2000, in_use = 0, prev_phys = 4720, next_phys = 6784,
                  prev_free = 4096, next_free = 0\<rparr>,
         6784 := header 16 1 4760 0),
      brk = 6824\<rparr>"

text \<open>
  The heap \<open>big7\<close> after a request of 2147483624 bytes, which splits the free
  block at 2147487720.
\<close>

definition misplaced :: state where
  "misplaced = \<lparr>bins = (\<lambda>_. 0)(0 := 2147487640, 63 := 4072), heap_tail = 5368713216,
                 mem = zero_mem(4072 := header 1073741824 0 2147487720 5368713216,
                                4096 := header 2147483520 1 0 2147487640,
                                2147487640 := header 16 0 4096 2147487680,
                                2147487680 := header 16 1 2147487640 2147487720,
                                2147487720 := header 2147483624 1 2147487680 4072,
                                5368713216 := header 16 1 4072 0),
                 brk = 5368713256\<rparr>"

section \<open>Basic facts\<close>

declare find_split.simps [simp del]

lemmas consts_defs = MINIMUM_ALLOCATION_def SIZE_MULTIPLE_def BIGGEST_BINNED_SIZE_def
  NUM_BINS_def OVERFLOW_BIN_def BLOCK_HEADER_SIZE_def MINIMUM_BLOCK_SIZE_def

lemmas set_defs = set_size_def set_in_use_def set_prev_phys_def set_next_phys_def
  set_prev_free_def set_next_free_def set_bin_def

lemma ptr_add_bytes_nat: "ptr_add_bytes p (int n) = p + n"
  by (simp add: ptr_add_bytes_def nat_int_add)

lemma block_to_data_eq: "block_to_data b = b + 24"
  by (simp add: block_to_data_def ptr_add_bytes_def BLOCK_HEADER_SIZE_def)

lemma data_to_block_eq: "data_to_block (b + 24) = b"
  by (simp add: data_to_block_def ptr_add_bytes_def BLOCK_HEADER_SIZE_def)

lemma remove_block_frame [simp]:
  "size_b (mem (remove_block b s) q) = size_b (mem s q)"
  "in_use (mem (remove_block b s) q) = in_use (mem s q)"
  "prev_phys (mem (remove_block b s) q) = prev_phys (mem s q)"
  "next_phys (mem (remove_block b s) q) = next_phys (mem s q)"
  "heap_tail (remove_block b s) = heap_tail s"
  "brk (remove_block b s) = brk s"
  by (simp_all add: remove_block_def Let_def set_defs)

lemma insert_into_bin_frame [simp]:
  "size_b (mem (insert_into_bin b s) q) = size_b (mem s q)"
  "in_use (mem (insert_into_bin b s) q) = in_use (mem s q)"
  "prev_phys (mem (insert_into_bin b s) q) = prev_phys (mem s q)"
  "next_phys (mem (insert_into_bin b s) q) = next_phys (mem s q)"
  "heap_tail (insert_into_bin b s) = heap_tail s"
  "brk (insert_into_bin b s) = brk s"
  by (simp_all add: insert_into_bin_def Let_def set_defs)

subsection \<open>Allocation when every bin is empty\<close>

lemma find_split_empty: "\<forall>i. bins s i = 0 \<Longrightarrow> find_split sz index s = (0, s)"
  by (induction sz index s rule: find_split.induct) (simp add: find_split.simps)

lemma malloc_small_empty: "\<forall>i. bins s i = 0 \<Longrightarrow> malloc_small sz s = (0, s)"
  by (simp add: malloc_small_def find_split_empty Let_def)

lemma malloc_overflow_empty: "\<forall>i. bins s i = 0 \<Longrightarrow> malloc_overflow sz s = Some (0, s)"
  by (simp add: malloc_overflow_def first_fit.simps)

lemma my_malloc_empty:
  "\<forall>i. bins s i = 0 \<Longrightarrow> size0 \<noteq> 0 \<Longrightarrow>
     my_malloc size0 s = Some (block_to_data (brk s), snd (malloc_grow (round_up_size size0) s))"
  by (simp add: my_malloc_def malloc_small_empty malloc_overflow_empty Let_def malloc_grow_def)

lemma round_up_size_24: "round_up_size 24 = 24"
  by (simp add: round_up_size_def consts_defs)

lemma malloc_24_empty: "my_malloc 24 (empty_heap m b) = Some (b + 24, one_block m b)"
  by (simp add: my_malloc_empty empty_heap_def round_up_size_24 malloc_grow_def link_onto_end_def
      set_defs block_to_data_eq consts_defs Let_def one_block_def)

lemma malloc_24_one_block:
  "b \<noteq> 0 \<Longrightarrow> my_malloc 24 (one_block m b) = Some (b + 72, two_blocks m b)"
  by (simp add: my_malloc_empty round_up_size_24 malloc_grow_def link_onto_end_def set_defs
      block_to_data_eq consts_defs Let_def one_block_def two_blocks_def fun_upd_twist)

lemma coalesce_one_block: "coalesce b (one_block m b) = (b, one_block m b)"
  by (simp add: coalesce_def one_block_def)

lemma free_one_block: "my_free (b + 24) (one_block m b) = empty_heap (mem (one_block m b)) b"
  by (simp add: my_free_def data_to_block_eq coalesce_one_block)
    (simp add: one_block_def unlink_block_def empty_heap_def)

lemma one_block_again: "one_block (mem (one_block m b)) b = one_block m b"
  by (simp add: one_block_def)

section \<open>Rounding and bin index\<close>

lemma and_minus8: "(x :: 32 word) AND - 8 = push_bit 3 (drop_bit 3 x)"
proof -
  have "(- 8 :: 32 word) = NOT (mask 3)" by (simp add: mask_eq_exp_minus_1)
  then show ?thesis
    by (simp add: bit_eq_iff bit_simps) (use bit_imp_le_length in \<open>auto\<close>)
qed

lemma unat_and_minus8: "unat ((x :: 32 word) AND - 8) = 8 * (unat x div 8)"
proof -
  have "unat x < 2 ^ 32" using unsigned_less [of x] by simp
  then have "8 * (unat x div 8) < 2 ^ 32" by simp
  then show ?thesis
    by (simp add: and_minus8 push_bit_eq_mult drop_bit_eq_div unat_word_ariths unat_div)
qed

lemma round_up_size_unat:
  assumes "unat s \<le> 4294967288"
  shows "unat (round_up_size s) =
           (if 0 < unat s \<and> unat s \<le> 16 then 16 else 8 * ((unat s + 7) div 8))"
proof -
  have a: "unat (s + 7) = unat s + 7"
    using assms by (simp add: unat_word_ariths)
  show ?thesis
    using assms
    by (auto simp add: round_up_size_def MINIMUM_ALLOCATION_def SIZE_MULTIPLE_def
        unat_and_minus8 a word_less_nat_alt unat_eq_0)
qed

lemma size_to_bin_eq: "size_to_bin s = min 63 (unat ((round_up_size s - 16) div 8))"
  by (simp add: size_to_bin_def consts_defs Let_def)

text \<open>
  C9 (as stated, fails). At the request \<open>2 ^ 32 - 1\<close> the addition
  \<open>data_size + 7\<close> wraps around and \<open>round_up_size\<close> returns 0, not the next
  multiple of 8 above the request.
\<close>

theorem round_up_size_wraps:
  "unat (round_up_size 4294967295) \<noteq>
     (if 0 < unat (4294967295 :: 32 word) \<and> unat (4294967295 :: 32 word) \<le> 16 then 16
      else 8 * ((unat (4294967295 :: 32 word) + 7) div 8))"
  by (simp add: round_up_size_def consts_defs)

text \<open>
  C9 (amended). For every payload size \<open>s \<le> 2 ^ 32 - 8\<close>, \<open>round_up_size s\<close> is
  16 when \<open>0 < s \<le> 16\<close> and otherwise \<open>s\<close> rounded up to the next multiple of 8;
  and for every \<open>s\<close>, \<open>size_to_bin s\<close> is \<open>(round_up_size s - 16) / 8\<close> computed in
  32-bit unsigned arithmetic, clamped to the overflow bin index 63.
\<close>

theorem round_up_size_and_bin:
  "(unat s \<le> 2 ^ 32 - 8 \<longrightarrow>
      unat (round_up_size s) =
        (if 0 < unat s \<and> unat s \<le> 16 then 16 else 8 * ((unat s + 7) div 8)))
   \<and> size_to_bin s =
       min OVERFLOW_BIN (unat ((round_up_size s - word_of_nat MINIMUM_ALLOCATION)
                                div word_of_nat SIZE_MULTIPLE))
   \<and> OVERFLOW_BIN = 63"
proof (intro conjI impI)
  assume "unat s \<le> 2 ^ 32 - 8"
  then show "unat (round_up_size s) =
      (if 0 < unat s \<and> unat s \<le> 16 then 16 else 8 * ((unat s + 7) div 8))"
    using round_up_size_unat [of s] by simp
next
  show "size_to_bin s =
      min OVERFLOW_BIN (unat ((round_up_size s - word_of_nat MINIMUM_ALLOCATION)
                               div word_of_nat SIZE_MULTIPLE))"
    by (simp add: size_to_bin_eq) (simp add: consts_defs)
next
  show "OVERFLOW_BIN = 63"
    by (simp add: consts_defs)
qed

theorem round_up_size_and_bin_witness:
  "unat (100 :: 32 word) \<le> 2 ^ 32 - 8 \<and> unat (round_up_size 100) = 104 \<and> size_to_bin 100 = 11"
  using round_up_size_and_bin [of 100] by (simp add: round_up_size_def consts_defs)

section \<open>Null requests\<close>

text \<open>
  C8. \<open>my_malloc 0\<close> returns the null pointer and \<open>my_free\<close> of the null pointer
  returns at once; both leave the whole allocator state (bins, heap tail, every
  header, program break) as it was, so freeing the result of \<open>my_malloc 0\<close>
  changes nothing.
\<close>

theorem null_round_trip:
  "my_malloc 0 s = Some (0, s) \<and> my_free 0 s = s
   \<and> my_free (fst (the (my_malloc 0 s))) (snd (the (my_malloc 0 s))) = s"
  by (simp add: my_malloc_def my_free_def)

section \<open>Scenario S2\<close>

text \<open>
  C7 (as stated, fails). From the empty heap with break 4096, the first
  allocation of 24 bytes returns 4120; freeing it lowers the break to
  \<open>B1 = 4096\<close> and leaves no block behind; the second allocation of 24 bytes
  raises the break above \<open>B1\<close>.
\<close>

theorem s2_break_moves:
  "my_malloc 24 (empty_heap zero_mem 4096) = Some (4120, one_block zero_mem 4096)
   \<and> brk (my_free 4120 (one_block zero_mem 4096)) = 4096
   \<and> my_malloc 24 (my_free 4120 (one_block zero_mem 4096)) = Some (4120, one_block zero_mem 4096)
   \<and> brk (one_block zero_mem 4096) \<noteq> brk (my_free 4120 (one_block zero_mem 4096))"
  using malloc_24_empty [of zero_mem 4096] free_one_block [of 4096 zero_mem]
    malloc_24_empty [of "mem (one_block zero_mem 4096)" 4096]
  by (simp add: one_block_again) (simp add: one_block_def empty_heap_def)

text \<open>
  C7 (amended). Starting from an empty heap, after allocating 24 bytes and
  freeing that pointer the heap is empty again: every bin is empty, there is no
  heap tail and the break \<open>B1\<close> is the break before the first allocation. The
  second allocation of 24 bytes is therefore served by growing the heap: it
  returns the same pointer and the break afterwards is \<open>B1 + 24 +
  BLOCK_HEADER_SIZE\<close>.
\<close>

theorem s2_second_allocation_grows:
  "\<exists>p s1 s3. my_malloc 24 (empty_heap m b) = Some (p, s1)
     \<and> brk (my_free p s1) = b
     \<and> heap_tail (my_free p s1) = 0
     \<and> bins (my_free p s1) = (\<lambda>_. 0)
     \<and> my_malloc 24 (my_free p s1) = Some (p, s3)
     \<and> brk s3 = brk (my_free p s1) + 24 + BLOCK_HEADER_SIZE"
  by (simp add: malloc_24_empty free_one_block one_block_again)
    (simp add: empty_heap_def one_block_def consts_defs)

section \<open>What coalesce leaves in the in-use flag\<close>

lemma splice_next_in_use: "in_use (mem s c) = 0 \<Longrightarrow> in_use (mem (splice_next c s) c) = 0"
  by (simp add: splice_next_def set_defs)

lemma coalesce_both_free:
  "in_use (mem (snd (coalesce_both b s)) (fst (coalesce_both b s))) = 0"
  by (simp add: coalesce_both_def Let_def splice_next_in_use set_defs)

lemma coalesce_prev_free:
  "in_use (mem (snd (coalesce_prev b s)) (fst (coalesce_prev b s))) = 0"
  by (simp add: coalesce_prev_def Let_def set_defs)

lemma coalesce_prev_tail_free:
  "in_use (mem (snd (coalesce_prev_tail b s)) (fst (coalesce_prev_tail b s))) = 0"
  by (simp add: coalesce_prev_tail_def Let_def set_defs)

lemma coalesce_next_free:
  "in_use (mem (snd (coalesce_next b s)) (fst (coalesce_next b s))) = 0"
  by (simp add: coalesce_next_def Let_def splice_next_in_use set_defs)

lemma coalesce_free_or_unchanged:
  "in_use (mem (snd (coalesce b s)) (fst (coalesce b s))) = 0 \<or> coalesce b s = (b, s)"
  by (simp add: coalesce_def Let_def coalesce_both_free coalesce_prev_free
      coalesce_prev_tail_free coalesce_next_free)

lemma coalesce_no_merge:
  "(prev_phys (mem s b) = 0 \<or> in_use (mem s (prev_phys (mem s b))) = 1) \<Longrightarrow>
   (next_phys (mem s b) = 0 \<or> in_use (mem s (next_phys (mem s b))) = 1) \<Longrightarrow>
   coalesce b s = (b, s)"
  by (auto simp add: coalesce_def Let_def)

lemma my_free_marks_free:
  "p \<noteq> 0 \<Longrightarrow>
   next_phys (mem (snd (coalesce (data_to_block p) s)) (fst (coalesce (data_to_block p) s))) \<noteq> 0 \<Longrightarrow>
   in_use (mem (my_free p s) (fst (coalesce (data_to_block p) s))) = 0"
  by (simp add: my_free_def split_def Let_def set_defs)

lemma coalesce_two_blocks_first:
  "b \<noteq> 0 \<Longrightarrow> coalesce b (two_blocks m b) = (b, two_blocks m b)"
  by (simp add: coalesce_def two_blocks_def Let_def)

lemma coalesce_two_blocks_second:
  "b \<noteq> 0 \<Longrightarrow> coalesce (b + 48) (two_blocks m b) = (b + 48, two_blocks m b)"
  by (simp add: coalesce_def two_blocks_def Let_def)

lemma free_first_of_two: "b \<noteq> 0 \<Longrightarrow> my_free (b + 24) (two_blocks m b) = first_freed m b"
  by (simp add: my_free_def data_to_block_eq coalesce_two_blocks_first)
    (simp add: two_blocks_def first_freed_def insert_into_bin_def size_to_bin_def
      round_up_size_def set_defs consts_defs Let_def fun_eq_iff)

lemma coalesce_merges:
  assumes "prev_phys (mem s b) \<noteq> 0 \<longrightarrow> in_use (mem s (prev_phys (mem s b))) \<in> {0, 1}"
    and "next_phys (mem s b) \<noteq> 0 \<longrightarrow> in_use (mem s (next_phys (mem s b))) \<in> {0, 1}"
    and "(prev_phys (mem s b) \<noteq> 0 \<and> in_use (mem s (prev_phys (mem s b))) = 0)
         \<or> (next_phys (mem s b) \<noteq> 0 \<and> in_use (mem s (next_phys (mem s b))) = 0)"
  shows "in_use (mem (snd (coalesce b s)) (fst (coalesce b s))) = 0"
  using assms
  by (auto simp add: coalesce_def Let_def coalesce_both_free coalesce_prev_free
      coalesce_prev_tail_free coalesce_next_free)

lemma coalesce_fst:
  "fst (coalesce_both b s) = prev_phys (mem s b)"
  "fst (coalesce_prev b s) = prev_phys (mem s b)"
  "fst (coalesce_prev_tail b s) = prev_phys (mem s b)"
  "fst (coalesce_next b s) = b"
  by (simp_all add: coalesce_both_def coalesce_prev_def coalesce_prev_tail_def coalesce_next_def
      Let_def)

lemma coalesce_returns:
  assumes "prev_phys (mem s b) \<noteq> 0 \<longrightarrow> in_use (mem s (prev_phys (mem s b))) \<in> {0, 1}"
    and "next_phys (mem s b) \<noteq> 0 \<longrightarrow> in_use (mem s (next_phys (mem s b))) \<in> {0, 1}"
  shows "fst (coalesce b s) =
           (if prev_phys (mem s b) \<noteq> 0 \<and> in_use (mem s (prev_phys (mem s b))) = 0
            then prev_phys (mem s b) else b)"
  using assms by (auto simp add: coalesce_def Let_def coalesce_fst)


text \<open>
  C4 (as stated, fails). The block allocated first from an empty heap has no
  physical neighbour; \<open>coalesce\<close> on the free path returns it with \<open>in_use\<close>
  still 1.
\<close>

theorem coalesce_leaves_block_in_use:
  "my_malloc 24 (empty_heap zero_mem 4096) = Some (4120, one_block zero_mem 4096)
   \<and> fst (coalesce (data_to_block 4120) (one_block zero_mem 4096)) = 4096
   \<and> in_use (mem (snd (coalesce (data_to_block 4120) (one_block zero_mem 4096))) 4096) \<noteq> 0"
  using malloc_24_empty [of zero_mem 4096] data_to_block_eq [of 4096]
    coalesce_one_block [of 4096 zero_mem]
  by (simp add: one_block_def)

text \<open>
  C4 (amended). When a physical neighbour of the block is present and free, and
  the other neighbour is absent, free or in use, \<open>coalesce\<close> merges: the block
  it returns is marked free (\<open>in_use = 0\<close>), and it is the predecessor when
  that one was free, the block itself otherwise. In the no-merge case, where
  each physical neighbour is absent or in use, \<open>coalesce\<close> returns the block
  and leaves the state untouched, so the block is still marked in use;
  \<open>my_free\<close> itself then marks it free before inserting it into a bin when it
  is not the heap tail.
\<close>

theorem coalesce_marks_free_on_merge:
  "((prev_phys (mem s b) \<noteq> 0 \<and> in_use (mem s (prev_phys (mem s b))) = 0
       \<and> (next_phys (mem s b) = 0 \<or> in_use (mem s (next_phys (mem s b))) = 0
            \<or> in_use (mem s (next_phys (mem s b))) = 1)
     \<or> next_phys (mem s b) \<noteq> 0 \<and> in_use (mem s (next_phys (mem s b))) = 0
       \<and> (prev_phys (mem s b) = 0 \<or> in_use (mem s (prev_phys (mem s b))) = 0
            \<or> in_use (mem s (prev_phys (mem s b))) = 1))
    \<longrightarrow> in_use (mem (snd (coalesce b s)) (fst (coalesce b s))) = 0
        \<and> fst (coalesce b s) =
            (if prev_phys (mem s b) \<noteq> 0 \<and> in_use (mem s (prev_phys (mem s b))) = 0
             then prev_phys (mem s b) else b))
   \<and> ((prev_phys (mem s b) = 0 \<or> in_use (mem s (prev_phys (mem s b))) = 1)
        \<and> (next_phys (mem s b) = 0 \<or> in_use (mem s (next_phys (mem s b))) = 1)
       \<longrightarrow> coalesce b s = (b, s))
   \<and> (p \<noteq> 0
        \<and> next_phys (mem (snd (coalesce (data_to_block p) s))
                        (fst (coalesce (data_to_block p) s))) \<noteq> 0
       \<longrightarrow> in_use (mem (my_free p s) (fst (coalesce (data_to_block p) s))) = 0)"
proof (intro conjI impI)
  assume a: "prev_phys (mem s b) \<noteq> 0 \<and> in_use (mem s (prev_phys (mem s b))) = 0
       \<and> (next_phys (mem s b) = 0 \<or> in_use (mem s (next_phys (mem s b))) = 0
            \<or> in_use (mem s (next_phys (mem s b))) = 1)
     \<or> next_phys (mem s b) \<noteq> 0 \<and> in_use (mem s (next_phys (mem s b))) = 0
       \<and> (prev_phys (mem s b) = 0 \<or> in_use (mem s (prev_phys (mem s b))) = 0
            \<or> in_use (mem s (prev_phys (mem s b))) = 1)"
  then have f: "prev_phys (mem s b) \<noteq> 0 \<longrightarrow> in_use (mem s (prev_phys (mem s b))) \<in> {0, 1}"
    "next_phys (mem s b) \<noteq> 0 \<longrightarrow> in_use (mem s (next_phys (mem s b))) \<in> {0, 1}"
    "(prev_phys (mem s b) \<noteq> 0 \<and> in_use (mem s (prev_phys (mem s b))) = 0)
         \<or> (next_phys (mem s b) \<noteq> 0 \<and> in_use (mem s (next_phys (mem s b))) = 0)"
    by auto
  show "in_use (mem (snd (coalesce b s)) (fst (coalesce b s))) = 0"
    by (rule coalesce_merges [OF f])
  show "fst (coalesce b s) =
            (if prev_phys (mem s b) \<noteq> 0 \<and> in_use (mem s (prev_phys (mem s b))) = 0
             then prev_phys (mem s b) else b)"
    by (rule coalesce_returns [OF f(1,2)])
next
  assume "(prev_phys (mem s b) = 0 \<or> in_use (mem s (prev_phys (mem s b))) = 1)
        \<and> (next_phys (mem s b) = 0 \<or> in_use (mem s (next_phys (mem s b))) = 1)"
  then show "coalesce b s = (b, s)"
    using coalesce_no_merge [of s b] by blast
next
  assume "p \<noteq> 0
        \<and> next_phys (mem (snd (coalesce (data_to_block p) s))
                        (fst (coalesce (data_to_block p) s))) \<noteq> 0"
  then show "in_use (mem (my_free p s) (fst (coalesce (data_to_block p) s))) = 0"
    using my_free_marks_free [of p s] by blast
qed

theorem coalesce_marks_free_on_merge_witness:
  "prev_phys (mem (first_freed zero_mem 4096) 4144) = 4096
   \<and> in_use (mem (first_freed zero_mem 4096) 4096) = 0
   \<and> next_phys (mem (first_freed zero_mem 4096) 4144) = 0
   \<and> in_use (mem (first_freed zero_mem 4096) 4144) = 1
   \<and> fst (coalesce 4144 (first_freed zero_mem 4096)) = 4096
   \<and> in_use (mem (snd (coalesce 4144 (first_freed zero_mem 4096))) 4096) = 0
   \<and> prev_phys (mem (two_blocks zero_mem 4096) 4096) = 0
   \<and> in_use (mem (two_blocks zero_mem 4096) (next_phys (mem (two_blocks zero_mem 4096) 4096))) = 1
   \<and> coalesce 4096 (two_blocks zero_mem 4096) = (4096, two_blocks zero_mem 4096)
   \<and> in_use (mem (two_blocks zero_mem 4096) 4096) = 1
   \<and> (4120 :: nat) \<noteq> 0
   \<and> next_phys (mem (snd (coalesce (data_to_block 4120) (two_blocks zero_mem 4096)))
                    (fst (coalesce (data_to_block 4120) (two_blocks zero_mem 4096)))) \<noteq> 0
   \<and> in_use (mem (my_free 4120 (two_blocks zero_mem 4096)) 4096) = 0"
proof -
  have c: "coalesce 4096 (two_blocks zero_mem 4096) = (4096, two_blocks zero_mem 4096)"
    using coalesce_two_blocks_first [of 4096 zero_mem] by simp
  have d: "data_to_block 4120 = 4096"
    using data_to_block_eq [of 4096] by simp
  have n: "prev_phys (mem (two_blocks zero_mem 4096) 4096) = 0"
    "next_phys (mem (two_blocks zero_mem 4096) 4096) = 4144"
    "in_use (mem (two_blocks zero_mem 4096) 4144) = 1"
    "in_use (mem (two_blocks zero_mem 4096) 4096) = 1"
    by (simp_all add: two_blocks_def)
  have f: "prev_phys (mem (first_freed zero_mem 4096) 4144) = 4096"
    "in_use (mem (first_freed zero_mem 4096) 4096) = 0"
    "next_phys (mem (first_freed zero_mem 4096) 4144) = 0"
    "in_use (mem (first_freed zero_mem 4096) 4144) = 1"
    by (simp_all add: first_freed_def)
  show ?thesis
    using coalesce_marks_free_on_merge [of "two_blocks zero_mem 4096" 4096 4120]
      coalesce_marks_free_on_merge [of "first_freed zero_mem 4096" 4144 0]
    by (auto simp add: d c n f)
qed

section \<open>Releasing the heap tail\<close>

lemma coalesce_tail:
  assumes "next_phys (mem s b) = 0 \<longrightarrow> heap_tail s = b"
    and "coalesce b s = (M, s1)" and "next_phys (mem s1 M) = 0"
  shows "heap_tail s1 = M"
  using assms
  by (auto simp add: coalesce_def Let_def coalesce_both_def coalesce_prev_def
      coalesce_prev_tail_def coalesce_next_def set_defs splice_next_def split: if_splits)

lemma coalesce_nonnull: "b \<noteq> 0 \<Longrightarrow> fst (coalesce b s) \<noteq> 0"
  by (simp add: coalesce_def Let_def coalesce_both_def coalesce_prev_def
      coalesce_prev_tail_def coalesce_next_def)

lemma unlink_block_tail:
  "heap_tail s = M \<Longrightarrow> M \<noteq> 0 \<Longrightarrow>
   heap_tail (unlink_block s) = prev_phys (mem s M)
   \<and> (prev_phys (mem s M) \<noteq> 0 \<longrightarrow> next_phys (mem (unlink_block s) (prev_phys (mem s M))) = 0)
   \<and> bins (unlink_block s) = bins s
   \<and> (\<forall>q. prev_free (mem (unlink_block s) q) = prev_free (mem s q)
          \<and> next_free (mem (unlink_block s) q) = next_free (mem s q))"
  by (simp add: unlink_block_def Let_def set_defs)

text \<open>
  C2. When \<open>my_free\<close> is given a non-null pointer and the block \<open>M\<close> that
  \<open>coalesce\<close> returns has no physical successor, then \<open>M\<close> is dropped from the
  physical list: the heap tail becomes the predecessor of \<open>M\<close> (null when there
  is none) and that predecessor's \<open>next_phys\<close> is null; the program break is
  lowered to the address of \<open>M\<close>; and nothing is inserted into a bin: the bin
  heads and the free-list links are those \<open>coalesce\<close> left. The pointer is valid
  in the sense that its block, if it has no physical successor, is the heap
  tail.
\<close>

theorem free_tail_contracts:
  assumes "p \<noteq> 0" and "data_to_block p \<noteq> 0"
    and "next_phys (mem s (data_to_block p)) = 0 \<longrightarrow> heap_tail s = data_to_block p"
    and "coalesce (data_to_block p) s = (M, s1)"
    and "next_phys (mem s1 M) = 0"
  shows "heap_tail (my_free p s) = prev_phys (mem s1 M)
    \<and> (prev_phys (mem s1 M) \<noteq> 0 \<longrightarrow> next_phys (mem (my_free p s) (prev_phys (mem s1 M))) = 0)
    \<and> brk (my_free p s) = M
    \<and> bins (my_free p s) = bins s1
    \<and> (\<forall>q. prev_free (mem (my_free p s) q) = prev_free (mem s1 q)
           \<and> next_free (mem (my_free p s) q) = next_free (mem s1 q))"
proof -
  have t: "heap_tail s1 = M"
    using coalesce_tail [OF assms(3) assms(4) assms(5)] .
  have f: "my_free p s = (unlink_block s1)\<lparr>brk := M\<rparr>"
    using assms by (simp add: my_free_def)
  have n: "M \<noteq> 0"
    using coalesce_nonnull [OF assms(2), of s] assms(4) by simp
  show ?thesis
    using unlink_block_tail [OF t n] f by simp
qed

theorem free_tail_contracts_witness:
  "(4168 :: nat) \<noteq> 0 \<and> data_to_block 4168 = 4144
   \<and> next_phys (mem (two_blocks zero_mem 4096) 4144) = 0
   \<and> heap_tail (two_blocks zero_mem 4096) = 4144
   \<and> coalesce 4144 (two_blocks zero_mem 4096) = (4144, two_blocks zero_mem 4096)
   \<and> heap_tail (my_free 4168 (two_blocks zero_mem 4096)) = 4096
   \<and> next_phys (mem (my_free 4168 (two_blocks zero_mem 4096)) 4096) = 0
   \<and> brk (my_free 4168 (two_blocks zero_mem 4096)) = 4144
   \<and> bins (my_free 4168 (two_blocks zero_mem 4096)) = bins (two_blocks zero_mem 4096)"
proof -
  have d: "data_to_block 4168 = 4144"
    using data_to_block_eq [of 4144] by simp
  have c: "coalesce 4144 (two_blocks zero_mem 4096) = (4144, two_blocks zero_mem 4096)"
    using coalesce_two_blocks_second [of 4096 zero_mem] by simp
  have n: "next_phys (mem (two_blocks zero_mem 4096) 4144) = 0"
    "prev_phys (mem (two_blocks zero_mem 4096) 4144) = 4096"
    "heap_tail (two_blocks zero_mem 4096) = 4144"
    by (simp_all add: two_blocks_def)
  show ?thesis
    using free_tail_contracts [of 4168 "two_blocks zero_mem 4096" 4144 "two_blocks zero_mem 4096"]
    by (simp add: d c n)
qed

section \<open>Facts about well-formed heaps\<close>

lemma phys_wf_empty: "0 < base \<Longrightarrow> phys_wf base (empty_heap m base) {}"
  by (simp add: phys_wf_def pwf_def empty_heap_def)

lemma bins_wf_empty: "bins_wf (empty_heap m base) {} (\<lambda>_. [])"
  by (simp add: bins_wf_def lists_wf_def empty_heap_def)

lemma heap_wf_empty: "0 < base \<Longrightarrow> heap_wf base (empty_heap m base) {}"
proof -
  assume b: "0 < base"
  have "phys_wf base (empty_heap m base) {} \<and> bins_wf (empty_heap m base) {} (\<lambda>_. [])
     \<and> ({} :: ptr set) = {block_to_data b |b. b \<in> {} \<and> in_use (mem (empty_heap m base) b) = 1}"
    using phys_wf_empty [OF b] bins_wf_empty by simp
  then show ?thesis
    unfolding heap_wf_def by blast
qed

subsection \<open>Doubly linked free lists\<close>

lemma dll_frame:
  "(\<And>x. x \<in> set xs \<Longrightarrow> prev_free (m' x) = prev_free (m x) \<and> next_free (m' x) = next_free (m x))
   \<Longrightarrow> dll m' prev p xs = dll m prev p xs"
  by (induction xs arbitrary: prev p) auto

lemma dll_nonnull: "dll m prev p xs \<Longrightarrow> 0 \<notin> set xs"
  by (induction xs arbitrary: prev p) auto

lemma dll_head: "dll m prev p xs \<Longrightarrow> p = (case xs of [] \<Rightarrow> 0 | x # _ \<Rightarrow> x)"
  by (cases xs) auto

lemma dll_member_links:
  "dll m prev p (xs @ b # ys) \<Longrightarrow>
     prev_free (m b) = (if xs = [] then prev else last xs)
     \<and> next_free (m b) = (case ys of [] \<Rightarrow> 0 | n # _ \<Rightarrow> n)"
proof (induction xs arbitrary: prev p)
  case Nil
  then show ?case by (cases ys) auto
next
  case (Cons x xs)
  from Cons.prems have "dll m x (next_free (m x)) (xs @ b # ys)" by simp
  from Cons.IH [OF this] show ?case by simp
qed

lemma mem_remove_block: "mem (remove_block b s) = unlink_mem (mem s) b"
  by (simp add: remove_block_def unlink_mem_def Let_def set_defs)

lemma bins_remove_block:
  "bins (remove_block b s) =
     (if prev_free (mem s b) = 0
      then (bins s)(size_to_bin (size_b (mem s b)) := next_free (mem s b))
      else bins s)"
  by (auto simp add: remove_block_def Let_def set_defs)

lemma unlink_mem_links:
  "prev_free (m b) = pf \<Longrightarrow> next_free (m b) = nf \<Longrightarrow> x \<noteq> pf \<Longrightarrow> x \<noteq> nf \<Longrightarrow>
     unlink_mem m b x = m x"
  by (auto simp add: unlink_mem_def Let_def)

lemma unlink_mem_dll:
  "dll m prev p (xs @ b # ys) \<Longrightarrow> distinct (prev # xs @ b # ys) \<Longrightarrow>
     dll (unlink_mem m b) prev (if xs = [] then next_free (m b) else p) (xs @ ys)"
proof (induction xs arbitrary: prev p)
  case Nil
  show ?case
  proof (cases ys)
    case Nil
    with Nil.prems show ?thesis by simp
  next
    case (Cons n ys')
    from Nil.prems Cons have b: "prev_free (m b) = prev" "next_free (m b) = n" "n \<noteq> 0"
      and d: "dll m n (next_free (m n)) ys'" and ne: "n \<noteq> prev" "n \<notin> set ys'" "prev \<notin> set ys'"
      by auto
    have l: "prev_free (unlink_mem m b n) = prev" "next_free (unlink_mem m b n) = next_free (m n)"
      using b ne by (auto simp add: unlink_mem_def Let_def)
    have "unlink_mem m b x = m x" if "x \<in> set ys'" for x
      using that b ne unlink_mem_links [of m b prev n x] by auto
    then have "dll (unlink_mem m b) n (next_free (m n)) ys' = dll m n (next_free (m n)) ys'"
      by (intro dll_frame) simp
    with d l b Cons show ?thesis by simp
  qed
next
  case (Cons x xs)
  from Cons.prems have d: "dll m x (next_free (m x)) (xs @ b # ys)"
    and px: "p = x" "x \<noteq> 0" "prev_free (m x) = prev"
    and di: "distinct (x # xs @ b # ys)" by auto
  note ih = Cons.IH [OF d di]
  note lk = dll_member_links [OF d]
  have x1: "prev_free (unlink_mem m b x) = prev"
    using px di lk by (cases ys) (auto simp add: unlink_mem_def Let_def)
  have x2: "next_free (unlink_mem m b x) = (if xs = [] then next_free (m b) else next_free (m x))"
    using px di lk by (cases ys) (auto simp add: unlink_mem_def Let_def)
  show ?case using ih px x1 x2 by simp
qed

lemma lists_wf_remove:
  assumes wf: "lists_wf s S F" and bS: "b \<in> S"
  shows "lists_wf (remove_block b s) (S - {b})
           (F(size_to_bin (size_b (mem s b)) := remove1 b (F (size_to_bin (size_b (mem s b))))))"
proof -
  define i where "i = size_to_bin (size_b (mem s b))"
  define m where "m = mem s"
  have wfi: "dll m 0 (bins s j) (F j)" "distinct (F j)"
    "set (F j) = {c \<in> S. size_to_bin (size_b (m c)) = j}" for j
    using wf by (simp_all add: lists_wf_def m_def)
  have "b \<in> set (F i)" using wfi(3) [of i] bS by (simp add: i_def m_def)
  then obtain xs ys where sp: "F i = xs @ b # ys"
    by (meson split_list)
  have di: "distinct (xs @ b # ys)" using wfi(2) [of i] sp by simp
  have nz: "0 \<notin> set (xs @ b # ys)" using dll_nonnull [OF wfi(1) [of i]] sp by simp
  have d0: "dll m 0 (bins s i) (xs @ b # ys)" using wfi(1) [of i] sp by simp
  have r1: "remove1 b (F i) = xs @ ys" using sp di by (simp add: remove1_append)
  note lk = dll_member_links [OF d0]
  have pf: "prev_free (m b) = 0 \<longleftrightarrow> xs = []"
    using lk nz by (cases xs rule: rev_cases) auto
  have di0: "distinct (0 # xs @ b # ys)" using di nz by simp
  have bi: "bins (remove_block b s) i = (if xs = [] then next_free (m b) else bins s i)"
    using pf by (simp add: bins_remove_block i_def m_def)
  have bj: "bins (remove_block b s) j = bins s j" if "j \<noteq> i" for j
    using that by (simp add: bins_remove_block i_def)
  have mm: "mem (remove_block b s) = unlink_mem m b" by (simp add: mem_remove_block m_def)
  have sz: "size_b (unlink_mem m b c) = size_b (m c)" for c
    using remove_block_frame(1) [of b s c] by (simp add: mem_remove_block m_def)
  have A: "dll (unlink_mem m b) 0 (bins (remove_block b s) i) (xs @ ys)"
    using unlink_mem_dll [OF d0 di0] bi by simp
  have B: "dll (unlink_mem m b) 0 (bins s j) (F j)" if ji: "j \<noteq> i" for j
  proof -
    have "unlink_mem m b x = m x" if xj: "x \<in> set (F j)" for x
    proof -
      have x1: "x \<notin> set (F i)" using xj ji wfi(3) [of j] wfi(3) [of i] by auto
      have x2: "x \<noteq> 0" using dll_nonnull [OF wfi(1) [of j]] xj by metis
      have p: "prev_free (m b) \<in> set (F i) \<or> prev_free (m b) = 0"
        using lk sp by (cases xs rule: rev_cases) auto
      have n: "next_free (m b) \<in> set (F i) \<or> next_free (m b) = 0"
        using lk sp by (cases ys) auto
      have "x \<noteq> prev_free (m b)" "x \<noteq> next_free (m b)"
        using x1 x2 p n by metis+
      then show ?thesis
        by (intro unlink_mem_links [of m b "prev_free (m b)" "next_free (m b)" x]) simp_all
    qed
    then have "dll (unlink_mem m b) 0 (bins s j) (F j) = dll m 0 (bins s j) (F j)"
      by (intro dll_frame) simp
    then show ?thesis using wfi(1) [of j] by simp
  qed
  have C: "set (xs @ ys) = {c \<in> S - {b}. size_to_bin (size_b (m c)) = i}"
    using wfi(3) [of i] sp di by auto
  have D: "set (F j) = {c \<in> S - {b}. size_to_bin (size_b (m c)) = j}" if "j \<noteq> i" for j
    using wfi(3) [of j] that by (auto simp add: i_def m_def)
  have "dll (unlink_mem m b) 0 (bins (remove_block b s) j) ((F(i := xs @ ys)) j)
      \<and> distinct ((F(i := xs @ ys)) j)
      \<and> set ((F(i := xs @ ys)) j) = {c \<in> S - {b}. size_to_bin (size_b (unlink_mem m b c)) = j}" for j
  proof (cases "j = i")
    case True
    then show ?thesis using A C di by (simp add: sz)
  next
    case False
    then show ?thesis using B [OF False] D [OF False] bj [OF False] wfi(2) [of j] by (simp add: sz)
  qed
  then show ?thesis
    unfolding lists_wf_def mm i_def [symmetric] r1 by blast
qed

lemma lists_wf_frame:
  assumes wf: "lists_wf s S F" and "bins s' = bins s"
    and "\<And>x. prev_free (mem s' x) = prev_free (mem s x) \<and> next_free (mem s' x) = next_free (mem s x)"
    and "\<And>x. x \<in> S \<Longrightarrow> size_b (mem s' x) = size_b (mem s x)"
  shows "lists_wf s' S F"
proof -
  have "dll (mem s') 0 p xs = dll (mem s) 0 p xs" for p xs
    by (intro dll_frame) (simp add: assms(3))
  moreover have "{b \<in> S. size_to_bin (size_b (mem s' b)) = i}
      = {b \<in> S. size_to_bin (size_b (mem s b)) = i}" for i
    using assms(4) by auto
  ultimately show ?thesis
    using wf by (simp add: lists_wf_def assms(2))
qed

lemma mem_insert_into_bin:
  "mem (insert_into_bin e s) =
     (let h = bins s (size_to_bin (size_b (mem s e)))
      in if h = 0 then (mem s)(e := (mem s e)\<lparr>prev_free := 0, next_free := 0\<rparr>)
         else (let m1 = (mem s)(h := (mem s h)\<lparr>prev_free := e\<rparr>)
               in m1(e := (m1 e)\<lparr>next_free := h, prev_free := 0\<rparr>)))"
  by (simp add: insert_into_bin_def Let_def set_defs)

lemma bins_insert_into_bin:
  "bins (insert_into_bin e s) = (bins s)(size_to_bin (size_b (mem s e)) := e)"
  by (simp add: insert_into_bin_def Let_def set_defs)

lemma lists_wf_insert:
  assumes wf: "lists_wf s S F" and eS: "e \<notin> S" and e0: "e \<noteq> 0"
  shows "lists_wf (insert_into_bin e s) (insert e S)
           (F(size_to_bin (size_b (mem s e)) := e # F (size_to_bin (size_b (mem s e)))))"
proof -
  define i where "i = size_to_bin (size_b (mem s e))"
  define m where "m = mem s"
  define m' where "m' = mem (insert_into_bin e s)"
  define h where "h = bins s i"
  have wfi: "dll m 0 (bins s j) (F j)" "distinct (F j)"
    "set (F j) = {c \<in> S. size_to_bin (size_b (m c)) = j}" for j
    using wf by (simp_all add: lists_wf_def m_def)
  have eF: "e \<notin> set (F j)" for j using wfi(3) [of j] eS by simp
  have sz: "size_b (m' c) = size_b (m c)" for c
    by (simp add: m'_def m_def)
  have m'e: "prev_free (m' e) = 0" "next_free (m' e) = h"
    by (simp_all add: m'_def mem_insert_into_bin Let_def h_def i_def)
  have m'h: "prev_free (m' h) = e" "next_free (m' h) = next_free (m h)" if "h \<noteq> 0" "h \<noteq> e"
    using that by (simp_all add: m'_def mem_insert_into_bin Let_def h_def i_def m_def)
  have m'x: "m' x = m x" if "x \<noteq> e" "x \<noteq> h" for x
    using that by (simp add: m'_def mem_insert_into_bin Let_def h_def i_def m_def)
  have hd: "h = (case F i of [] \<Rightarrow> 0 | x # _ \<Rightarrow> x)"
    using dll_head [OF wfi(1) [of i]] by (simp add: h_def)
  have A: "dll m' 0 e (e # F i)"
  proof (cases "F i")
    case Nil
    then show ?thesis using hd m'e e0 by simp
  next
    case (Cons x xs)
    then have hx: "h = x" using hd by simp
    have d: "dll m 0 x (x # xs)" "distinct (x # xs)" "x \<noteq> e" "e \<notin> set xs"
      using wfi(1) [of i] wfi(2) [of i] eF [of i] Cons hx h_def by auto
    then have x0: "x \<noteq> 0" by simp
    have "m' y = m y" if "y \<in> set xs" for y
      using that d hx by (intro m'x) auto
    then have "dll m' x (next_free (m x)) xs = dll m x (next_free (m x)) xs"
      by (intro dll_frame) simp
    then show ?thesis
      using d m'e m'h [unfolded hx, OF x0 d(3)] e0 Cons hx by simp
  qed
  have B: "dll m' 0 (bins s j) (F j)" if ji: "j \<noteq> i" for j
  proof -
    have "m' x = m x" if xj: "x \<in> set (F j)" for x
    proof -
      have "x \<noteq> e" using eF [of j] xj by auto
      moreover have "x \<noteq> 0" using dll_nonnull [OF wfi(1) [of j]] xj by metis
      moreover have "x \<notin> set (F i)" using xj ji wfi(3) [of j] wfi(3) [of i] by auto
      moreover have "h \<in> set (F i) \<or> h = 0" using hd by (cases "F i") auto
      ultimately show ?thesis by (intro m'x) metis+
    qed
    then have "dll m' 0 (bins s j) (F j) = dll m 0 (bins s j) (F j)"
      by (intro dll_frame) simp
    then show ?thesis using wfi(1) [of j] by simp
  qed
  have "dll m' 0 (((bins s)(i := e)) j) ((F(i := e # F i)) j)
      \<and> distinct ((F(i := e # F i)) j)
      \<and> set ((F(i := e # F i)) j) = {c \<in> insert e S. size_to_bin (size_b (m' c)) = j}" for j
  proof (cases "j = i")
    case True
    then show ?thesis using A wfi(2) [of i] wfi(3) [of i] eF [of i]
      by (auto simp add: sz i_def m_def)
  next
    case False
    then show ?thesis using B [OF False] wfi(2) [of j] wfi(3) [of j]
      by (auto simp add: sz i_def m_def)
  qed
  then show ?thesis
    unfolding lists_wf_def bins_insert_into_bin i_def [symmetric] m'_def by blast
qed

subsection \<open>Transformations of the physical list\<close>

lemma pwf_D:
  assumes "pwf base ht bk sz us pp np B"
  shows "0 < base" "base \<le> bk" "bk - base < 2 ^ 31"
    "B = {} \<Longrightarrow> ht = 0 \<and> bk = base"
    "B \<noteq> {} \<Longrightarrow> base \<in> B \<and> ht \<in> B \<and> ht + 24 + sz ht = bk"
    "\<And>b. b \<in> B \<Longrightarrow> base \<le> b \<and> b + 24 + sz b \<le> bk"
    "\<And>b c. b \<in> B \<Longrightarrow> c \<in> B \<Longrightarrow> b < c \<Longrightarrow> b + 24 + sz b \<le> c"
    "\<And>b. b \<in> B \<Longrightarrow> np b = (if b + 24 + sz b = bk then 0 else b + 24 + sz b)"
    "\<And>b. b \<in> B \<Longrightarrow> b + 24 + sz b \<noteq> bk \<Longrightarrow> b + 24 + sz b \<in> B"
    "\<And>b. b \<in> B \<Longrightarrow> b = base \<Longrightarrow> pp b = 0"
    "\<And>b. b \<in> B \<Longrightarrow> b \<noteq> base \<Longrightarrow> pp b \<in> B \<and> pp b + 24 + sz (pp b) = b"
    "\<And>b. b \<in> B \<Longrightarrow> us b = 0 \<or> us b = 1"
    "\<And>b. b \<in> B \<Longrightarrow> 16 \<le> sz b \<and> 8 dvd sz b"
    "\<And>b. b \<in> B \<Longrightarrow> us b = 0 \<Longrightarrow> b + 24 + sz b \<noteq> bk \<and> us (b + 24 + sz b) = 1 \<and> (b \<noteq> base \<longrightarrow> us (pp b) = 1)"
  using assms unfolding pwf_def by simp_all

lemma pwf_end_inj:
  assumes "pwf base ht bk sz us pp np B" "b \<in> B" "c \<in> B" "b + 24 + sz b = c + 24 + sz c"
  shows "b = c"
proof (rule ccontr)
  assume "b \<noteq> c"
  then consider "b < c" | "c < b" by linarith
  then show False
    using pwf_D(7) [OF assms(1), of b c] pwf_D(7) [OF assms(1), of c b] assms by cases auto
qed

lemma pwf_prev_of_next:
  assumes w: "pwf base ht bk sz us pp np B" and "b \<in> B" "b + 24 + sz b \<noteq> bk"
  shows "pp (b + 24 + sz b) = b"
proof -
  let ?n = "b + 24 + sz b"
  have n: "?n \<in> B" using pwf_D(9) [OF w] assms by simp
  have "base \<le> b" using pwf_D(6) [OF w assms(2)] by simp
  then have "?n \<noteq> base" by simp
  then have "pp ?n \<in> B \<and> pp ?n + 24 + sz (pp ?n) = ?n" using pwf_D(11) [OF w n] by simp
  then show ?thesis using pwf_end_inj [OF w _ assms(2), of "pp ?n"] by simp
qed

lemma pwf_split:
  assumes w: "pwf base ht bk sz us pp np B" and bB: "b \<in> B" and fr: "us b = 0"
    and w16: "16 \<le> w" and w8: "8 dvd w" and fit: "w + 40 \<le> sz b"
  shows "pwf base ht bk (sz(b := w, b + 24 + w := sz b - w - 24)) (us(b := 1, b + 24 + w := 0))
           (pp(b + 24 + w := b, b + 24 + sz b := b + 24 + w))
           (np(b := b + 24 + w, b + 24 + w := b + 24 + sz b)) (insert (b + 24 + w) B)"
proof -
  define e where "e = b + 24 + w"
  define n where "n = b + 24 + sz b"
  note D = pwf_D [OF w]
  have nb: "n \<noteq> bk" "us n = 1" using D(14) [OF bB fr] by (simp_all add: n_def)
  have nB: "n \<in> B" using D(9) [OF bB] nb by (simp add: n_def)
  have ppn: "pp n = b" using pwf_prev_of_next [OF w bB] nb by (simp add: n_def)
  have ord: "b < e" "e < n" "e + 24 + (sz b - w - 24) = n" using fit by (simp_all add: e_def n_def)
  have out: "c \<le> b \<or> n \<le> c" if "c \<in> B" for c
    using D(7) [OF bB that] by (cases "c \<le> b") (simp_all add: n_def)
  have eB: "e \<notin> B" using out [of e] ord by auto
  have below: "c + 24 + sz c \<le> b" if "c \<in> B" "c < b" for c
    using D(7) [OF that(1) bB that(2)] .
  have sz8: "8 dvd sz b" "16 \<le> sz b" using D(13) [OF bB] by simp_all
  have r8: "8 dvd (sz b - w - 24)" "16 \<le> sz b - w - 24"
    using sz8 w8 fit by (simp_all add: dvd_diff_nat)
  have bbase: "base \<le> b" "n \<le> bk" using D(6) [OF bB] by (simp_all add: n_def)
  show ?thesis
    unfolding pwf_def e_def [symmetric] n_def [symmetric]
  proof (intro conjI)
    show "0 < base" "base \<le> bk" "bk - base < 2 ^ 31" using D(1-3) by simp_all
    show "insert e B = {} \<longrightarrow> ht = 0 \<and> bk = base" by simp
    have "ht \<in> B" "ht + 24 + sz ht = bk" "base \<in> B" using D(5) bB by auto
    moreover from this have "ht \<noteq> b" "ht \<noteq> e" using nb eB by (auto simp add: n_def)
    ultimately show "insert e B \<noteq> {} \<longrightarrow> base \<in> insert e B \<and> ht \<in> insert e B
        \<and> ht + 24 + (sz(b := w, e := sz b - w - 24)) ht = bk"
      by simp
    show "\<forall>c\<in>insert e B. base \<le> c \<and> c + 24 + (sz(b := w, e := sz b - w - 24)) c \<le> bk"
    proof
      fix c assume "c \<in> insert e B"
      then consider "c = e" | "c = b" | "c \<in> B" "c \<noteq> b" "c \<noteq> e" using eB by blast
      then show "base \<le> c \<and> c + 24 + (sz(b := w, e := sz b - w - 24)) c \<le> bk"
      proof cases
        case 1 then show ?thesis using ord bbase by simp
      next
        case 2 then show ?thesis using ord bbase by (simp add: e_def)
      next
        case 3 then show ?thesis using D(6) [OF 3(1)] by simp
      qed
    qed
    show "\<forall>c\<in>insert e B. \<forall>d\<in>insert e B. c < d \<longrightarrow>
        c + 24 + (sz(b := w, e := sz b - w - 24)) c \<le> d"
    proof (intro ballI impI)
      fix c d assume c: "c \<in> insert e B" and d: "d \<in> insert e B" and cd: "c < d"
      consider "c = e" | "c = b" | "c \<in> B" "c \<noteq> b" "c \<noteq> e" using c eB by blast
      then show "c + 24 + (sz(b := w, e := sz b - w - 24)) c \<le> d"
      proof cases
        case 1
        then have "d \<in> B" using d cd by auto
        then show ?thesis using out [of d] 1 cd ord by auto
      next
        case 2
        show ?thesis
        proof (cases "d = e")
          case True then show ?thesis using 2 ord by (simp add: e_def)
        next
          case False
          then have "d \<in> B" using d by simp
          then show ?thesis using out [of d] 2 cd ord by (auto simp add: e_def)
        qed
      next
        case 3
        show ?thesis
        proof (cases "d = e")
          case True
          then have "c < b" using out [OF 3(1)] 3 cd ord by auto
          then show ?thesis using below [OF 3(1)] 3 True ord by simp
        next
          case False
          then have "d \<in> B" using d by simp
          then show ?thesis using D(7) [OF 3(1) _ cd] 3 by simp
        qed
      qed
    qed
    show "\<forall>c\<in>insert e B.
        (np(b := e, e := n)) c =
          (if c + 24 + (sz(b := w, e := sz b - w - 24)) c = bk then 0
           else c + 24 + (sz(b := w, e := sz b - w - 24)) c)
        \<and> (c + 24 + (sz(b := w, e := sz b - w - 24)) c \<noteq> bk \<longrightarrow>
             c + 24 + (sz(b := w, e := sz b - w - 24)) c \<in> insert e B)"
    proof
      fix c assume "c \<in> insert e B"
      then consider "c = e" | "c = b" | "c \<in> B" "c \<noteq> b" "c \<noteq> e" using eB by blast
      then show "(np(b := e, e := n)) c =
          (if c + 24 + (sz(b := w, e := sz b - w - 24)) c = bk then 0
           else c + 24 + (sz(b := w, e := sz b - w - 24)) c)
        \<and> (c + 24 + (sz(b := w, e := sz b - w - 24)) c \<noteq> bk \<longrightarrow>
             c + 24 + (sz(b := w, e := sz b - w - 24)) c \<in> insert e B)"
      proof cases
        case 1 then show ?thesis using ord nb nB by simp
      next
        case 2 then show ?thesis using ord bbase by (simp add: e_def)
      next
        case 3 then show ?thesis using D(8) [OF 3(1)] D(9) [OF 3(1)] by simp
      qed
    qed
    show "\<forall>c\<in>insert e B.
        (c = base \<longrightarrow> (pp(e := b, n := e)) c = 0)
        \<and> (c \<noteq> base \<longrightarrow> (pp(e := b, n := e)) c \<in> insert e B
             \<and> (pp(e := b, n := e)) c + 24
                 + (sz(b := w, e := sz b - w - 24)) ((pp(e := b, n := e)) c) = c)"
    proof
      fix c assume "c \<in> insert e B"
      then consider "c = e" | "c = n" | "c \<in> B" "c \<noteq> n" "c \<noteq> e" using eB by blast
      then show "(c = base \<longrightarrow> (pp(e := b, n := e)) c = 0)
        \<and> (c \<noteq> base \<longrightarrow> (pp(e := b, n := e)) c \<in> insert e B
             \<and> (pp(e := b, n := e)) c + 24
                 + (sz(b := w, e := sz b - w - 24)) ((pp(e := b, n := e)) c) = c)"
      proof cases
        case 1 then show ?thesis using ord bbase bB by (simp add: e_def)
      next
        case 2 then show ?thesis using ord bbase bB by simp
      next
        case 3
        show ?thesis
        proof (cases "c = base")
          case True then show ?thesis using D(10) [OF 3(1)] 3 by simp
        next
          case False
          note P = D(11) [OF 3(1) False]
          have "pp c \<noteq> b" using P 3 by (auto simp add: n_def)
          moreover have "pp c \<noteq> e" using P eB by auto
          ultimately show ?thesis using P 3 False by simp
        qed
      qed
    qed
    show "\<forall>c\<in>insert e B. (us(b := 1, e := 0)) c = 0 \<or> (us(b := 1, e := 0)) c = 1"
      using D(12) by simp
    show "\<forall>c\<in>insert e B. 16 \<le> (sz(b := w, e := sz b - w - 24)) c
        \<and> 8 dvd (sz(b := w, e := sz b - w - 24)) c"
      using D(13) w16 w8 r8 by simp
    show "\<forall>c\<in>insert e B. (us(b := 1, e := 0)) c = 0 \<longrightarrow>
        c + 24 + (sz(b := w, e := sz b - w - 24)) c \<noteq> bk
        \<and> (us(b := 1, e := 0)) (c + 24 + (sz(b := w, e := sz b - w - 24)) c) = 1
        \<and> (c \<noteq> base \<longrightarrow> (us(b := 1, e := 0)) ((pp(e := b, n := e)) c) = 1)"
    proof (intro ballI impI)
      fix c assume c: "c \<in> insert e B" and f: "(us(b := 1, e := 0)) c = 0"
      have "c \<noteq> b" using f ord by auto
      then consider "c = e" | "c \<in> B" "c \<noteq> b" "c \<noteq> e" using c eB by blast
      then show "c + 24 + (sz(b := w, e := sz b - w - 24)) c \<noteq> bk
        \<and> (us(b := 1, e := 0)) (c + 24 + (sz(b := w, e := sz b - w - 24)) c) = 1
        \<and> (c \<noteq> base \<longrightarrow> (us(b := 1, e := 0)) ((pp(e := b, n := e)) c) = 1)"
      proof cases
        case 1 then show ?thesis using ord nb by (simp add: e_def)
      next
        case 2
        then have uc: "us c = 0" using f by simp
        note Q = D(14) [OF 2(1) uc]
        have cn: "c \<noteq> n" using uc nb by auto
        have "c + 24 + sz c \<in> B" using D(9) [OF 2(1)] Q by simp
        then have "c + 24 + sz c \<noteq> e" using eB by auto
        moreover have "c \<noteq> base \<Longrightarrow> pp c \<noteq> e" using D(11) [OF 2(1)] eB by auto
        ultimately show ?thesis using Q 2 cn by auto
      qed
    qed
  qed
qed

lemma pwf_cong:
  assumes w: "pwf base ht bk sz us pp np B"
    and eq: "\<And>b. b \<in> B \<Longrightarrow> sz' b = sz b \<and> us' b = us b \<and> pp' b = pp b \<and> np' b = np b"
  shows "pwf base ht bk sz' us' pp' np' B"
proof -
  note D = pwf_D [OF w]
  show ?thesis
    unfolding pwf_def
  proof (intro conjI)
    show "0 < base" "base \<le> bk" "bk - base < 2 ^ 31" "B = {} \<longrightarrow> ht = 0 \<and> bk = base"
      using D(1-4) by simp_all
    show "B \<noteq> {} \<longrightarrow> base \<in> B \<and> ht \<in> B \<and> ht + 24 + sz' ht = bk"
      using D(5) eq by auto
    show "\<forall>b\<in>B. base \<le> b \<and> b + 24 + sz' b \<le> bk"
      using D(6) eq by simp
    show "\<forall>b\<in>B. \<forall>c\<in>B. b < c \<longrightarrow> b + 24 + sz' b \<le> c"
      using D(7) eq by simp
    show "\<forall>b\<in>B. np' b = (if b + 24 + sz' b = bk then 0 else b + 24 + sz' b)
        \<and> (b + 24 + sz' b \<noteq> bk \<longrightarrow> b + 24 + sz' b \<in> B)"
      using D(8) D(9) eq by simp
    show "\<forall>b\<in>B. (b = base \<longrightarrow> pp' b = 0)
        \<and> (b \<noteq> base \<longrightarrow> pp' b \<in> B \<and> pp' b + 24 + sz' (pp' b) = b)"
    proof
      fix b assume b: "b \<in> B"
      show "(b = base \<longrightarrow> pp' b = 0)
        \<and> (b \<noteq> base \<longrightarrow> pp' b \<in> B \<and> pp' b + 24 + sz' (pp' b) = b)"
      proof (cases "b = base")
        case True then show ?thesis using D(10) [OF b] eq [OF b] by simp
      next
        case False
        note P = D(11) [OF b False]
        then show ?thesis using False eq [OF b] eq [of "pp b"] by simp
      qed
    qed
    show "\<forall>b\<in>B. us' b = 0 \<or> us' b = 1" using D(12) eq by simp
    show "\<forall>b\<in>B. 16 \<le> sz' b \<and> 8 dvd sz' b" using D(13) eq by simp
    show "\<forall>b\<in>B. us' b = 0 \<longrightarrow> b + 24 + sz' b \<noteq> bk \<and> us' (b + 24 + sz' b) = 1
        \<and> (b \<noteq> base \<longrightarrow> us' (pp' b) = 1)"
    proof (intro ballI impI)
      fix b assume b: "b \<in> B" and f: "us' b = 0"
      then have u: "us b = 0" using eq [OF b] by simp
      note Q = D(14) [OF b u]
      have n: "b + 24 + sz b \<in> B" using D(9) [OF b] Q by simp
      have "b \<noteq> base \<Longrightarrow> pp b \<in> B" using D(11) [OF b] by simp
      then show "b + 24 + sz' b \<noteq> bk \<and> us' (b + 24 + sz' b) = 1
        \<and> (b \<noteq> base \<longrightarrow> us' (pp' b) = 1)"
        using Q eq [OF b] eq [OF n] eq [of "pp b"] by auto
    qed
  qed
qed

lemma pwf_use:
  assumes w: "pwf base ht bk sz us pp np B"
  shows "pwf base ht bk sz (us(b := 1)) pp np B"
proof -
  note D = pwf_D [OF w]
  show ?thesis
    unfolding pwf_def
  proof (intro conjI)
    show "0 < base" "base \<le> bk" "bk - base < 2 ^ 31" "B = {} \<longrightarrow> ht = 0 \<and> bk = base"
      "B \<noteq> {} \<longrightarrow> base \<in> B \<and> ht \<in> B \<and> ht + 24 + sz ht = bk"
      "\<forall>b\<in>B. base \<le> b \<and> b + 24 + sz b \<le> bk"
      "\<forall>b\<in>B. \<forall>c\<in>B. b < c \<longrightarrow> b + 24 + sz b \<le> c"
      "\<forall>b\<in>B. np b = (if b + 24 + sz b = bk then 0 else b + 24 + sz b)
        \<and> (b + 24 + sz b \<noteq> bk \<longrightarrow> b + 24 + sz b \<in> B)"
      "\<forall>b\<in>B. (b = base \<longrightarrow> pp b = 0)
        \<and> (b \<noteq> base \<longrightarrow> pp b \<in> B \<and> pp b + 24 + sz (pp b) = b)"
      "\<forall>b\<in>B. 16 \<le> sz b \<and> 8 dvd sz b"
      using D(1-11,13) by simp_all
    show "\<forall>c\<in>B. (us(b := 1)) c = 0 \<or> (us(b := 1)) c = 1" using D(12) by simp
    show "\<forall>c\<in>B. (us(b := 1)) c = 0 \<longrightarrow> c + 24 + sz c \<noteq> bk
        \<and> (us(b := 1)) (c + 24 + sz c) = 1 \<and> (c \<noteq> base \<longrightarrow> (us(b := 1)) (pp c) = 1)"
      using D(14) by simp
  qed
qed

lemma pwf_free_mark:
  assumes w: "pwf base ht bk sz us pp np B" and bB: "b \<in> B"
    and nt: "b + 24 + sz b \<noteq> bk" and nu: "us (b + 24 + sz b) = 1"
    and pu: "b = base \<or> us (pp b) = 1"
  shows "pwf base ht bk sz (us(b := 0)) pp np B"
proof -
  note D = pwf_D [OF w]
  show ?thesis
    unfolding pwf_def
  proof (intro conjI)
    show "0 < base" "base \<le> bk" "bk - base < 2 ^ 31" "B = {} \<longrightarrow> ht = 0 \<and> bk = base"
      "B \<noteq> {} \<longrightarrow> base \<in> B \<and> ht \<in> B \<and> ht + 24 + sz ht = bk"
      "\<forall>b\<in>B. base \<le> b \<and> b + 24 + sz b \<le> bk"
      "\<forall>b\<in>B. \<forall>c\<in>B. b < c \<longrightarrow> b + 24 + sz b \<le> c"
      "\<forall>b\<in>B. np b = (if b + 24 + sz b = bk then 0 else b + 24 + sz b)
        \<and> (b + 24 + sz b \<noteq> bk \<longrightarrow> b + 24 + sz b \<in> B)"
      "\<forall>b\<in>B. (b = base \<longrightarrow> pp b = 0)
        \<and> (b \<noteq> base \<longrightarrow> pp b \<in> B \<and> pp b + 24 + sz (pp b) = b)"
      "\<forall>b\<in>B. 16 \<le> sz b \<and> 8 dvd sz b"
      using D(1-11,13) by simp_all
    show "\<forall>c\<in>B. (us(b := 0)) c = 0 \<or> (us(b := 0)) c = 1" using D(12) by simp
    show "\<forall>c\<in>B. (us(b := 0)) c = 0 \<longrightarrow> c + 24 + sz c \<noteq> bk
        \<and> (us(b := 0)) (c + 24 + sz c) = 1 \<and> (c \<noteq> base \<longrightarrow> (us(b := 0)) (pp c) = 1)"
    proof (intro ballI impI)
      fix c assume c: "c \<in> B" and f: "(us(b := 0)) c = 0"
      show "c + 24 + sz c \<noteq> bk
        \<and> (us(b := 0)) (c + 24 + sz c) = 1 \<and> (c \<noteq> base \<longrightarrow> (us(b := 0)) (pp c) = 1)"
      proof (cases "c = b")
        case True
        have "pp b \<noteq> b" if "b \<noteq> base" using D(11) [OF bB that] by auto
        then show ?thesis using True nt nu pu by auto
      next
        case False
        then have u: "us c = 0" using f by simp
        note Q = D(14) [OF c u]
        have "c + 24 + sz c \<noteq> b" using Q nu pu u
          using pwf_prev_of_next [OF w c] D(10) [OF bB] D(6) [OF c] by (cases "b = base") auto
        moreover have "pp c \<noteq> b" if "c \<noteq> base"
          using D(11) [OF c that] nu u by auto
        ultimately show ?thesis using Q by auto
      qed
    qed
  qed
qed

lemma pwf_grow:
  assumes w: "pwf base ht bk sz us pp np B"
    and w16: "16 \<le> w" and w8: "8 dvd w" and lim: "bk + 24 + w - base < 2 ^ 31"
  shows "pwf base bk (bk + 24 + w) (sz(bk := w)) (us(bk := 1)) (pp(bk := ht))
           ((if ht = 0 then np else np(ht := bk))(bk := 0)) (insert bk B)"
proof -
  note D = pwf_D [OF w]
  have lt: "c < bk" "c + 24 + sz c \<le> bk" "base \<le> c" if "c \<in> B" for c
    using D(6) [OF that] by simp_all
  have bkB: "bk \<notin> B" using lt(1) by blast
  have ht: "ht \<in> B \<and> ht + 24 + sz ht = bk \<and> ht \<noteq> 0 \<and> base \<in> B" if "B \<noteq> {}"
    using D(5) [OF that] D(1) lt(3) [of ht] by auto
  have ht0: "ht = 0 \<and> bk = base" if "B = {}" using D(4) [OF that] .
  have nht: "c + 24 + sz c \<noteq> bk" if "c \<in> B" "c \<noteq> ht" for c
  proof
    assume "c + 24 + sz c = bk"
    moreover have "B \<noteq> {}" using that by auto
    ultimately show False using pwf_end_inj [OF w that(1), of ht] ht that by auto
  qed
  let ?np = "(if ht = 0 then np else np(ht := bk))(bk := 0)"
  show ?thesis
    unfolding pwf_def
  proof (intro conjI)
    show "0 < base" "base \<le> bk + 24 + w" "bk + 24 + w - base < 2 ^ 31"
      "insert bk B = {} \<longrightarrow> bk = 0 \<and> bk + 24 + w = base"
      using D(1-2) lim by simp_all
    show "insert bk B \<noteq> {} \<longrightarrow> base \<in> insert bk B \<and> bk \<in> insert bk B
        \<and> bk + 24 + (sz(bk := w)) bk = bk + 24 + w"
      using ht ht0 by (cases "B = {}") auto
    show "\<forall>c\<in>insert bk B. base \<le> c \<and> c + 24 + (sz(bk := w)) c \<le> bk + 24 + w"
    proof
      fix c assume "c \<in> insert bk B"
      then show "base \<le> c \<and> c + 24 + (sz(bk := w)) c \<le> bk + 24 + w"
        using lt [of c] D(2) by (cases "c = bk") simp_all
    qed
    show "\<forall>c\<in>insert bk B. \<forall>d\<in>insert bk B. c < d \<longrightarrow> c + 24 + (sz(bk := w)) c \<le> d"
    proof (intro ballI impI)
      fix c d assume c: "c \<in> insert bk B" and d: "d \<in> insert bk B" and cd: "c < d"
      show "c + 24 + (sz(bk := w)) c \<le> d"
      proof (cases "c = bk")
        case True then show ?thesis using d cd lt(1) [of d] by auto
      next
        case False
        then have cB: "c \<in> B" using c by simp
        show ?thesis
        proof (cases "d = bk")
          case True then show ?thesis using lt [OF cB] False by simp
        next
          case False
          then have "d \<in> B" using d by simp
          then show ?thesis using D(7) [OF cB _ cd] lt(1) [OF cB] by simp
        qed
      qed
    qed
    show "\<forall>c\<in>insert bk B.
        ?np c = (if c + 24 + (sz(bk := w)) c = bk + 24 + w then 0 else c + 24 + (sz(bk := w)) c)
        \<and> (c + 24 + (sz(bk := w)) c \<noteq> bk + 24 + w \<longrightarrow> c + 24 + (sz(bk := w)) c \<in> insert bk B)"
    proof
      fix c assume c: "c \<in> insert bk B"
      consider "c = bk" | "c \<in> B" "c = ht" | "c \<in> B" "c \<noteq> ht" using c by blast
      then show "?np c = (if c + 24 + (sz(bk := w)) c = bk + 24 + w then 0 else c + 24 + (sz(bk := w)) c)
        \<and> (c + 24 + (sz(bk := w)) c \<noteq> bk + 24 + w \<longrightarrow> c + 24 + (sz(bk := w)) c \<in> insert bk B)"
      proof cases
        case 1 then show ?thesis by simp
      next
        case 2
        then have "B \<noteq> {}" by auto
        then show ?thesis using ht 2 lt [OF 2(1)] by auto
      next
        case 3
        then show ?thesis using D(8) [OF 3(1)] D(9) [OF 3(1)] nht [OF 3] lt [OF 3(1)] by auto
      qed
    qed
    show "\<forall>c\<in>insert bk B. (c = base \<longrightarrow> (pp(bk := ht)) c = 0)
        \<and> (c \<noteq> base \<longrightarrow> (pp(bk := ht)) c \<in> insert bk B
             \<and> (pp(bk := ht)) c + 24 + (sz(bk := w)) ((pp(bk := ht)) c) = c)"
    proof
      fix c assume c: "c \<in> insert bk B"
      show "(c = base \<longrightarrow> (pp(bk := ht)) c = 0)
        \<and> (c \<noteq> base \<longrightarrow> (pp(bk := ht)) c \<in> insert bk B
             \<and> (pp(bk := ht)) c + 24 + (sz(bk := w)) ((pp(bk := ht)) c) = c)"
      proof (cases "c = bk")
        case True
        show ?thesis
        proof (cases "B = {}")
          case True
          then show ?thesis using ht0 \<open>c = bk\<close> by simp
        next
          case False
          then have "bk \<noteq> base" using ht lt(1) [of base] by auto
          then show ?thesis using ht [OF False] True lt(1) [of ht] by auto
        qed
      next
        case False
        then have cB: "c \<in> B" using c by simp
        have "pp c \<noteq> bk" if "c \<noteq> base" using D(11) [OF cB that] bkB by auto
        then show ?thesis using D(10) [OF cB] D(11) [OF cB] False by auto
      qed
    qed
    show "\<forall>c\<in>insert bk B. (us(bk := 1)) c = 0 \<or> (us(bk := 1)) c = 1"
      using D(12) by simp
    show "\<forall>c\<in>insert bk B. 16 \<le> (sz(bk := w)) c \<and> 8 dvd (sz(bk := w)) c"
      using D(13) w16 w8 by simp
    show "\<forall>c\<in>insert bk B. (us(bk := 1)) c = 0 \<longrightarrow>
        c + 24 + (sz(bk := w)) c \<noteq> bk + 24 + w
        \<and> (us(bk := 1)) (c + 24 + (sz(bk := w)) c) = 1
        \<and> (c \<noteq> base \<longrightarrow> (us(bk := 1)) ((pp(bk := ht)) c) = 1)"
    proof (intro ballI impI)
      fix c assume c: "c \<in> insert bk B" and f: "(us(bk := 1)) c = 0"
      then have cB: "c \<in> B" and u: "us c = 0" and cb: "c \<noteq> bk" by (auto split: if_splits)
      note Q = D(14) [OF cB u]
      have "c + 24 + sz c \<in> B" using D(9) [OF cB] Q by simp
      then have "c + 24 + sz c \<noteq> bk" using bkB by auto
      moreover have "pp c \<noteq> bk" if "c \<noteq> base" using D(11) [OF cB that] bkB by auto
      ultimately show "c + 24 + (sz(bk := w)) c \<noteq> bk + 24 + w
        \<and> (us(bk := 1)) (c + 24 + (sz(bk := w)) c) = 1
        \<and> (c \<noteq> base \<longrightarrow> (us(bk := 1)) ((pp(bk := ht)) c) = 1)"
        using Q cb lt [OF cB] by auto
    qed
  qed
qed

lemma pwf_truncate:
  assumes w: "pwf base ht bk sz us pp np B" and cB: "c \<in> B"
    and pu: "c = base \<or> us (pp c) = 1"
  shows "pwf base (pp c) c sz us pp (np(pp c := 0)) {x \<in> B. x < c}"
proof -
  note D = pwf_D [OF w]
  have cb: "base \<le> c" "c + 24 + sz c \<le> bk" using D(6) [OF cB] by simp_all
  have pc: "pp c \<in> B \<and> pp c + 24 + sz (pp c) = c \<and> pp c < c \<and> base \<in> B \<and> base < c"
    if "c \<noteq> base"
    using D(11) [OF cB that] D(5) cB cb that by auto
  have le: "x + 24 + sz x \<le> c" if "x \<in> B" "x < c" for x
    using D(7) [OF that(1) cB that(2)] .
  have inj: "x = pp c" if "x \<in> B" "x + 24 + sz x = c" for x
  proof -
    have "c \<noteq> base" using that D(6) [OF that(1)] by auto
    then show ?thesis using pwf_end_inj [OF w that(1), of "pp c"] pc that by auto
  qed
  show ?thesis
    unfolding pwf_def
  proof (intro conjI)
    show "0 < base" "base \<le> c" "c - base < 2 ^ 31"
      using D(1-3) cb by simp_all
    show "{x \<in> B. x < c} = {} \<longrightarrow> pp c = 0 \<and> c = base"
      using pc D(10) [OF cB] by (cases "c = base") auto
    show "{x \<in> B. x < c} \<noteq> {} \<longrightarrow> base \<in> {x \<in> B. x < c} \<and> pp c \<in> {x \<in> B. x < c}
        \<and> pp c + 24 + sz (pp c) = c"
    proof
      assume "{x \<in> B. x < c} \<noteq> {}"
      then obtain x where "x \<in> B" "x < c" by auto
      then have "c \<noteq> base" using D(6) [of x] by auto
      then show "base \<in> {x \<in> B. x < c} \<and> pp c \<in> {x \<in> B. x < c} \<and> pp c + 24 + sz (pp c) = c"
        using pc by simp
    qed
    show "\<forall>x\<in>{x \<in> B. x < c}. base \<le> x \<and> x + 24 + sz x \<le> c"
      using D(6) le by simp
    show "\<forall>x\<in>{x \<in> B. x < c}. \<forall>y\<in>{x \<in> B. x < c}. x < y \<longrightarrow> x + 24 + sz x \<le> y"
      using D(7) by simp
    show "\<forall>x\<in>{x \<in> B. x < c}.
        (np(pp c := 0)) x = (if x + 24 + sz x = c then 0 else x + 24 + sz x)
        \<and> (x + 24 + sz x \<noteq> c \<longrightarrow> x + 24 + sz x \<in> {x \<in> B. x < c})"
    proof
      fix x assume "x \<in> {x \<in> B. x < c}"
      then have x: "x \<in> B" "x < c" by simp_all
      show "(np(pp c := 0)) x = (if x + 24 + sz x = c then 0 else x + 24 + sz x)
        \<and> (x + 24 + sz x \<noteq> c \<longrightarrow> x + 24 + sz x \<in> {x \<in> B. x < c})"
      proof (cases "x + 24 + sz x = c")
        case True
        then show ?thesis using inj [OF x(1) True] by simp
      next
        case False
        have "c \<noteq> base" using x D(6) [OF x(1)] by auto
        then have "x \<noteq> pp c" using pc False by auto
        moreover have "x + 24 + sz x < c" using le [OF x] False by simp
        moreover from this have "x + 24 + sz x \<noteq> bk" using cb by simp
        ultimately show ?thesis using D(8) [OF x(1)] D(9) [OF x(1)] by simp
      qed
    qed
    show "\<forall>x\<in>{x \<in> B. x < c}. (x = base \<longrightarrow> pp x = 0)
        \<and> (x \<noteq> base \<longrightarrow> pp x \<in> {x \<in> B. x < c} \<and> pp x + 24 + sz (pp x) = x)"
    proof
      fix x assume "x \<in> {x \<in> B. x < c}"
      then have x: "x \<in> B" "x < c" by simp_all
      have "pp x < c" if "x \<noteq> base" using D(11) [OF x(1) that] x(2) by linarith
      then show "(x = base \<longrightarrow> pp x = 0)
        \<and> (x \<noteq> base \<longrightarrow> pp x \<in> {x \<in> B. x < c} \<and> pp x + 24 + sz (pp x) = x)"
        using D(10) [OF x(1)] D(11) [OF x(1)] by simp
    qed
    show "\<forall>x\<in>{x \<in> B. x < c}. us x = 0 \<or> us x = 1" using D(12) by simp
    show "\<forall>x\<in>{x \<in> B. x < c}. 16 \<le> sz x \<and> 8 dvd sz x" using D(13) by simp
    show "\<forall>x\<in>{x \<in> B. x < c}. us x = 0 \<longrightarrow>
        x + 24 + sz x \<noteq> c \<and> us (x + 24 + sz x) = 1 \<and> (x \<noteq> base \<longrightarrow> us (pp x) = 1)"
    proof (intro ballI impI)
      fix x assume "x \<in> {x \<in> B. x < c}" and u: "us x = 0"
      then have x: "x \<in> B" "x < c" by simp_all
      have "c \<noteq> base" using x D(6) [OF x(1)] by auto
      then have "us (pp c) = 1" using pu by simp
      then have "x + 24 + sz x \<noteq> c" using inj [OF x(1)] u by auto
      then show "x + 24 + sz x \<noteq> c \<and> us (x + 24 + sz x) = 1 \<and> (x \<noteq> base \<longrightarrow> us (pp x) = 1)"
        using D(14) [OF x(1) u] by simp
    qed
  qed
qed

lemma pwf_merge:
  assumes w: "pwf base ht bk sz us pp np B" and bB: "b \<in> B"
    and nt: "b + 24 + sz b \<noteq> bk"
    and nnt: "b + 24 + sz b + 24 + sz (b + 24 + sz b) \<noteq> bk"
    and nnu: "us (b + 24 + sz b + 24 + sz (b + 24 + sz b)) = 1"
    and pu: "b = base \<or> us (pp b) = 1"
  shows "pwf base ht bk (sz(b := sz b + 24 + sz (b + 24 + sz b))) (us(b := 0))
           (pp(b + 24 + sz b + 24 + sz (b + 24 + sz b) := b))
           (np(b := b + 24 + sz b + 24 + sz (b + 24 + sz b))) (B - {b + 24 + sz b})"
proof -
  define n where "n = b + 24 + sz b"
  define nn where "nn = n + 24 + sz n"
  define S where "S = sz b + 24 + sz n"
  note D = pwf_D [OF w]
  have nB: "n \<in> B" using D(9) [OF bB] nt by (simp add: n_def)
  have nn: "nn \<noteq> bk" "us nn = 1" using nnt nnu by (simp_all add: n_def nn_def)
  have nnB: "nn \<in> B" using D(9) [OF nB] nn by (simp add: nn_def)
  have ppn: "pp nn = n" using pwf_prev_of_next [OF w nB] nn by (simp add: nn_def)
  have ord: "b < n" "n < nn" "b + 24 + S = nn" "base \<le> b" "nn \<le> bk"
    using D(6) [OF bB] D(6) [OF nB] by (simp_all add: n_def nn_def S_def)
  have sz: "16 \<le> S" "8 dvd S" using D(13) [OF bB] D(13) [OF nB] by (simp_all add: S_def)
  have endn: "c = b" if "c \<in> B" "c + 24 + sz c = n" for c
    using pwf_end_inj [OF w that(1) bB] that by (simp add: n_def)
  have ppb: "c = n" if "c \<in> B" "c \<noteq> base" "pp c = b" for c
    using D(11) [OF that(1,2)] that by (simp add: n_def)
  have ppn': "c = nn" if "c \<in> B" "c \<noteq> base" "pp c = n" for c
    using D(11) [OF that(1,2)] that by (simp add: nn_def)
  have htn: "B \<noteq> {} \<Longrightarrow> ht \<noteq> n \<and> ht \<noteq> b" using D(5) nn nt by (auto simp add: nn_def n_def)
  show ?thesis
    unfolding pwf_def n_def [symmetric] nn_def [symmetric] S_def [symmetric]
  proof (intro conjI)
    show "0 < base" "base \<le> bk" "bk - base < 2 ^ 31" using D(1-3) by simp_all
    show "B - {n} = {} \<longrightarrow> ht = 0 \<and> bk = base" using bB ord by auto
    show "B - {n} \<noteq> {} \<longrightarrow> base \<in> B - {n} \<and> ht \<in> B - {n} \<and> ht + 24 + (sz(b := S)) ht = bk"
      using D(5) htn bB ord by auto
    show "\<forall>c\<in>B - {n}. base \<le> c \<and> c + 24 + (sz(b := S)) c \<le> bk"
    proof
      fix c assume "c \<in> B - {n}"
      then show "base \<le> c \<and> c + 24 + (sz(b := S)) c \<le> bk"
        using D(6) [of c] ord by (cases "c = b") simp_all
    qed
    show "\<forall>c\<in>B - {n}. \<forall>d\<in>B - {n}. c < d \<longrightarrow> c + 24 + (sz(b := S)) c \<le> d"
    proof (intro ballI impI)
      fix c d assume c: "c \<in> B - {n}" and d: "d \<in> B - {n}" and cd: "c < d"
      show "c + 24 + (sz(b := S)) c \<le> d"
      proof (cases "c = b")
        case True
        have "n \<le> d" using D(7) [OF bB _ cd [unfolded True]] d by (simp add: n_def)
        then have nd: "n < d" using d by simp
        show ?thesis using D(7) [OF nB _ nd] d True ord by (simp add: nn_def)
      next
        case False
        then show ?thesis using D(7) [OF _ _ cd] c d by simp
      qed
    qed
    show "\<forall>c\<in>B - {n}. (np(b := nn)) c =
          (if c + 24 + (sz(b := S)) c = bk then 0 else c + 24 + (sz(b := S)) c)
        \<and> (c + 24 + (sz(b := S)) c \<noteq> bk \<longrightarrow> c + 24 + (sz(b := S)) c \<in> B - {n})"
    proof
      fix c assume c: "c \<in> B - {n}"
      show "(np(b := nn)) c = (if c + 24 + (sz(b := S)) c = bk then 0 else c + 24 + (sz(b := S)) c)
        \<and> (c + 24 + (sz(b := S)) c \<noteq> bk \<longrightarrow> c + 24 + (sz(b := S)) c \<in> B - {n})"
      proof (cases "c = b")
        case True then show ?thesis using ord nn nnB by simp
      next
        case False
        then have "c + 24 + sz c \<noteq> n" using endn [of c] c by auto
        then show ?thesis using D(8) [of c] D(9) [of c] c False by simp
      qed
    qed
    show "\<forall>c\<in>B - {n}. (c = base \<longrightarrow> (pp(nn := b)) c = 0)
        \<and> (c \<noteq> base \<longrightarrow> (pp(nn := b)) c \<in> B - {n}
             \<and> (pp(nn := b)) c + 24 + (sz(b := S)) ((pp(nn := b)) c) = c)"
    proof
      fix c assume c: "c \<in> B - {n}"
      show "(c = base \<longrightarrow> (pp(nn := b)) c = 0)
        \<and> (c \<noteq> base \<longrightarrow> (pp(nn := b)) c \<in> B - {n}
             \<and> (pp(nn := b)) c + 24 + (sz(b := S)) ((pp(nn := b)) c) = c)"
      proof (cases "c = nn")
        case True then show ?thesis using ord bB by simp
      next
        case False
        have cB: "c \<in> B" "c \<noteq> n" using c by simp_all
        have "pp c \<noteq> n" "pp c \<noteq> b" if "c \<noteq> base"
          using ppn' [OF cB(1) that] ppb [OF cB(1) that] False cB by auto
        then show ?thesis using D(10) [OF cB(1)] D(11) [OF cB(1)] False by auto
      qed
    qed
    show "\<forall>c\<in>B - {n}. (us(b := 0)) c = 0 \<or> (us(b := 0)) c = 1" using D(12) by simp
    show "\<forall>c\<in>B - {n}. 16 \<le> (sz(b := S)) c \<and> 8 dvd (sz(b := S)) c" using D(13) sz by simp
    show "\<forall>c\<in>B - {n}. (us(b := 0)) c = 0 \<longrightarrow>
        c + 24 + (sz(b := S)) c \<noteq> bk
        \<and> (us(b := 0)) (c + 24 + (sz(b := S)) c) = 1
        \<and> (c \<noteq> base \<longrightarrow> (us(b := 0)) ((pp(nn := b)) c) = 1)"
    proof (intro ballI impI)
      fix c assume c: "c \<in> B - {n}" and f: "(us(b := 0)) c = 0"
      show "c + 24 + (sz(b := S)) c \<noteq> bk
        \<and> (us(b := 0)) (c + 24 + (sz(b := S)) c) = 1
        \<and> (c \<noteq> base \<longrightarrow> (us(b := 0)) ((pp(nn := b)) c) = 1)"
      proof (cases "c = b")
        case True
        have "pp b \<noteq> b" if "b \<noteq> base" using D(11) [OF bB that] by auto
        then show ?thesis using True ord nn pu by auto
      next
        case False
        have cB: "c \<in> B" "c \<noteq> n" using c by simp_all
        have u: "us c = 0" using f False by simp
        note Q = D(14) [OF cB(1) u]
        have "c \<noteq> nn" using u nn by auto
        moreover have "c + 24 + sz c \<noteq> b"
        proof
          assume e: "c + 24 + sz c = b"
          then have "b \<noteq> base" using D(6) [OF cB(1)] by auto
          moreover have "pp b = c" using pwf_prev_of_next [OF w cB(1)] Q e by simp
          ultimately show False using pu u by simp
        qed
        moreover have "pp c \<noteq> b" if "c \<noteq> base" using ppb [OF cB(1) that] cB by auto
        ultimately show ?thesis using Q False by auto
      qed
    qed
  qed
qed

lemma pwf_merge_next:
  assumes w: "pwf base ht bk sz us pp np B" and bB: "b \<in> B"
    and nt: "b + 24 + sz b \<noteq> bk" and nf: "us (b + 24 + sz b) = 0"
    and pu: "b = base \<or> us (pp b) = 1"
  shows "pwf base ht bk (sz(b := sz b + 24 + sz (b + 24 + sz b))) (us(b := 0))
           (pp(b + 24 + sz b + 24 + sz (b + 24 + sz b) := b))
           (np(b := b + 24 + sz b + 24 + sz (b + 24 + sz b))) (B - {b + 24 + sz b})"
proof -
  have nB: "b + 24 + sz b \<in> B" using pwf_D(9) [OF w bB] nt by simp
  show ?thesis
    using pwf_merge [OF w bB nt _ _ pu] pwf_D(14) [OF w nB nf] by simp
qed

lemma pwf_merge_prev:
  assumes w: "pwf base ht bk sz us pp np B" and bB: "b \<in> B" and bb: "b \<noteq> base"
    and pf: "us (pp b) = 0"
    and nt: "b + 24 + sz b \<noteq> bk" and nu: "us (b + 24 + sz b) = 1"
  shows "pwf base ht bk (sz(pp b := sz (pp b) + 24 + sz b)) (us(pp b := 0))
           (pp(b + 24 + sz b := pp b)) (np(pp b := b + 24 + sz b)) (B - {b})"
proof -
  note P = pwf_D(11) [OF w bB bb]
  have pB: "pp b \<in> B" and e: "pp b + 24 + sz (pp b) = b" using P by simp_all
  have e2: "pp b + 24 + sz (pp b) + 24 + sz (pp b + 24 + sz (pp b)) = b + 24 + sz b"
    using e by simp
  have pu: "pp b = base \<or> us (pp (pp b)) = 1"
    using pwf_D(14) [OF w pB pf] by auto
  have "pp b + 24 + sz (pp b) \<noteq> bk" using pwf_D(14) [OF w pB pf] by simp
  from pwf_merge [OF w pB this _ _ pu] nt nu show ?thesis
    unfolding e2 unfolding e by simp
qed

lemma pwf_merge_both:
  assumes w: "pwf base ht bk sz us pp np B" and bB: "b \<in> B" and bb: "b \<noteq> base"
    and pf: "us (pp b) = 0"
    and nt: "b + 24 + sz b \<noteq> bk" and nf: "us (b + 24 + sz b) = 0"
  shows "pwf base ht bk
           (sz(pp b := sz (pp b) + (sz b + 24) + (sz (b + 24 + sz b) + 24))) (us(pp b := 0))
           (pp(b + 24 + sz b + 24 + sz (b + 24 + sz b) := pp b))
           (np(pp b := b + 24 + sz b + 24 + sz (b + 24 + sz b))) (B - {b, b + 24 + sz b})"
proof -
  define p where "p = pp b"
  define n where "n = b + 24 + sz b"
  define nn where "nn = n + 24 + sz n"
  note P = pwf_D(11) [OF w bB bb]
  have pB: "p \<in> B" and e: "p + 24 + sz p = b" and pb: "p \<noteq> b" using P by (auto simp add: p_def)
  have nB: "n \<in> B" using pwf_D(9) [OF w bB] nt by (simp add: n_def)
  have Qn: "nn \<noteq> bk" "us nn = 1" using pwf_D(14) [OF w nB] nf by (simp_all add: n_def nn_def)
  have Qp: "p = base \<or> us (pp p) = 1" using pwf_D(14) [OF w pB] pf by (auto simp add: p_def)
  have ppp: "pp p \<noteq> p" "pp p \<noteq> b" if "p \<noteq> base"
    using pwf_D(11) [OF w pB that] e by auto
  have pn: "p \<noteq> n" "p \<noteq> nn" "b \<noteq> nn" "b \<noteq> n" using e by (simp_all add: n_def nn_def)
  \<comment> \<open>mark the predecessor used, merge the block with its successor, then merge the predecessor\<close>
  have w1: "pwf base ht bk sz (us(p := 1)) pp np B" using pwf_use [OF w] .
  have w2: "pwf base ht bk (sz(b := sz b + 24 + sz n)) (us(p := 1, b := 0)) (pp(nn := b))
      (np(b := nn)) (B - {n})"
    using pwf_merge_next [OF w1 bB nt] nf pn by (simp add: n_def nn_def p_def)
  have bB2: "p \<in> B - {n}" using pB pn by simp
  let ?sz = "sz(b := sz b + 24 + sz n)" and ?us = "us(p := 1, b := 0)"
  have e1: "p + 24 + ?sz p = b" using e pb by simp
  have e2: "b + 24 + ?sz b = nn"
    by (simp add: n_def nn_def)
  have bk: "b \<noteq> bk" using pwf_D(6) [OF w bB] by auto
  have h4: "p = base \<or> ?us ((pp(nn := b)) p) = 1"
    using Qp ppp pn by auto
  have h3: "?us nn = 1" using Qn pn by simp
  have w3: "pwf base ht bk (?sz(p := ?sz p + 24 + ?sz b))
      (?us(p := 0)) ((pp(nn := b))(nn := p)) ((np(b := nn))(p := nn)) (B - {n} - {b})"
    using pwf_merge [OF w2 bB2, unfolded e1, unfolded e2, OF bk Qn(1) h3 h4] .
  have "pwf base ht bk (sz(p := sz p + (sz b + 24) + (sz n + 24))) (us(p := 0))
      (pp(nn := p)) (np(p := nn)) (B - {n} - {b})"
    by (rule pwf_cong [OF w3]) (use pb in \<open>auto simp add: add.assoc\<close>)
  moreover have "B - {n} - {b} = B - {b, n}" by auto
  ultimately show ?thesis by (simp add: p_def n_def nn_def)
qed

subsection \<open>Projections of the state under the primitive stores\<close>

lemma sizes_simps [simp]:
  "sizes (set_size p v s) = (sizes s)(p := unat v)"
  "sizes (set_in_use p i s) = sizes s"
  "sizes (set_prev_phys p x s) = sizes s"
  "sizes (set_next_phys p x s) = sizes s"
  "sizes (remove_block b s) = sizes s"
  "sizes (insert_into_bin b s) = sizes s"
  "sizes (s\<lparr>heap_tail := x\<rparr>) = sizes s"
  "sizes (s\<lparr>brk := x\<rparr>) = sizes s"
  by (auto simp add: sizes_def set_defs)

lemma uses_simps [simp]:
  "uses (set_size p v s) = uses s"
  "uses (set_in_use p i s) = (uses s)(p := i)"
  "uses (set_prev_phys p x s) = uses s"
  "uses (set_next_phys p x s) = uses s"
  "uses (remove_block b s) = uses s"
  "uses (insert_into_bin b s) = uses s"
  "uses (s\<lparr>heap_tail := x\<rparr>) = uses s"
  "uses (s\<lparr>brk := x\<rparr>) = uses s"
  by (auto simp add: uses_def set_defs)

lemma prevs_simps [simp]:
  "prevs (set_size p v s) = prevs s"
  "prevs (set_in_use p i s) = prevs s"
  "prevs (set_prev_phys p x s) = (prevs s)(p := x)"
  "prevs (set_next_phys p x s) = prevs s"
  "prevs (remove_block b s) = prevs s"
  "prevs (insert_into_bin b s) = prevs s"
  "prevs (s\<lparr>heap_tail := x\<rparr>) = prevs s"
  "prevs (s\<lparr>brk := x\<rparr>) = prevs s"
  by (auto simp add: prevs_def set_defs)

lemma nexts_simps [simp]:
  "nexts (set_size p v s) = nexts s"
  "nexts (set_in_use p i s) = nexts s"
  "nexts (set_prev_phys p x s) = nexts s"
  "nexts (set_next_phys p x s) = (nexts s)(p := x)"
  "nexts (remove_block b s) = nexts s"
  "nexts (insert_into_bin b s) = nexts s"
  "nexts (s\<lparr>heap_tail := x\<rparr>) = nexts s"
  "nexts (s\<lparr>brk := x\<rparr>) = nexts s"
  by (auto simp add: nexts_def set_defs)

lemma tail_brk_simps [simp]:
  "heap_tail (set_size p v s) = heap_tail s" "brk (set_size p v s) = brk s"
  "heap_tail (set_in_use p i s) = heap_tail s" "brk (set_in_use p i s) = brk s"
  "heap_tail (set_prev_phys p x s) = heap_tail s" "brk (set_prev_phys p x s) = brk s"
  "heap_tail (set_next_phys p x s) = heap_tail s" "brk (set_next_phys p x s) = brk s"
  by (simp_all add: set_defs)

lemma field_reads:
  "size_b (mem s q) = word_of_nat (sizes s q)"
  "in_use (mem s q) = uses s q"
  "prev_phys (mem s q) = prevs s q"
  "next_phys (mem s q) = nexts s q"
  by (simp_all add: sizes_def uses_def prevs_def nexts_def)

subsection \<open>Free lists under the primitive stores\<close>

lemma lists_wf_set_in_use: "lists_wf s S F \<Longrightarrow> lists_wf (set_in_use p i s) S F"
  by (erule lists_wf_frame) (simp_all add: set_defs)

lemma lists_wf_set_prev_phys: "lists_wf s S F \<Longrightarrow> lists_wf (set_prev_phys p x s) S F"
  by (erule lists_wf_frame) (simp_all add: set_defs)

lemma lists_wf_set_next_phys: "lists_wf s S F \<Longrightarrow> lists_wf (set_next_phys p x s) S F"
  by (erule lists_wf_frame) (simp_all add: set_defs)

lemma lists_wf_set_size: "lists_wf s S F \<Longrightarrow> p \<notin> S \<Longrightarrow> lists_wf (set_size p v s) S F"
  by (erule lists_wf_frame) (auto simp add: set_defs)

lemma lists_wf_heap_tail: "lists_wf s S F \<Longrightarrow> lists_wf (s\<lparr>heap_tail := x\<rparr>) S F"
  by (erule lists_wf_frame) simp_all

lemma lists_wf_brk: "lists_wf s S F \<Longrightarrow> lists_wf (s\<lparr>brk := x\<rparr>) S F"
  by (erule lists_wf_frame) simp_all

subsection \<open>Arithmetic on sizes\<close>

lemma unat_lt32: "unat (x :: 32 word) < 4294967296"
  using unsigned_less [of x, where 'a = nat] by simp

lemma round_up_size_aligned:
  assumes "16 \<le> unat x" "8 dvd unat x"
  shows "round_up_size x = x"
proof -
  have le: "unat x \<le> 4294967288" using assms(2) unat_lt32 [of x] by (auto elim!: dvdE)
  have "8 * ((unat x + 7) div 8) = unat x" using assms(2) by (auto elim!: dvdE)
  then have "unat (round_up_size x) = unat x"
    using round_up_size_unat [OF le] assms(1) by auto
  then show ?thesis by (simp add: word_unat_eq_iff)
qed

lemma size_to_bin_aligned:
  assumes "16 \<le> unat x" "8 dvd unat x"
  shows "size_to_bin x = min 63 ((unat x - 16) div 8)"
proof -
  have "(16 :: 32 word) \<le> x" using assms(1) by (simp add: word_le_nat_alt)
  then have "unat (x - 16) = unat x - 16" by (simp add: unat_sub)
  then show ?thesis
    by (simp add: size_to_bin_eq round_up_size_aligned [OF assms] unat_div)
qed

lemma round_up_size_bounds:
  assumes "0 < unat n" "unat n < 2 ^ 31"
  shows "16 \<le> unat (round_up_size n)" "8 dvd unat (round_up_size n)"
    "unat n \<le> unat (round_up_size n)" "unat (round_up_size n) \<le> unat n + 15"
proof -
  have le: "unat n \<le> 4294967288" using assms(2) by simp
  note r = round_up_size_unat [OF le]
  show "16 \<le> unat (round_up_size n)" using r assms(1) by (auto split: if_splits)
  show "8 dvd unat (round_up_size n)" using r by (auto split: if_splits)
  show "unat n \<le> unat (round_up_size n)" using r by (auto split: if_splits)
  show "unat (round_up_size n) \<le> unat n + 15" using r assms(1) by (auto split: if_splits)
qed

lemma sint_small:
  assumes "unat (x :: 32 word) < 2 ^ 31"
  shows "sint x = int (unat x)"
proof -
  from assms have "int (unat x) < int (2 ^ 31)" by (simp only: of_nat_less_iff)
  then have "uint x < 2 ^ 31" by simp
  moreover have "- (2 ^ 31) \<le> uint x"
  proof -
    have "- (2 ^ 31) \<le> (0 :: int)" by simp
    then show ?thesis using uint_ge_0 [of x] by (rule order_trans)
  qed
  ultimately have "signed_take_bit 31 (uint x) = uint x"
    by (intro signed_take_bit_int_eq_self)
  then show ?thesis by (simp add: sint_uint)
qed

lemma to_int_small: "0 \<le> x \<Longrightarrow> x < 2 ^ 31 \<Longrightarrow> to_int x = x"
  by (simp add: to_int_def sint_sbintrunc' signed_take_bit_int_eq_self)

lemma split_arith:
  assumes "unat (old :: 32 word) < 2 ^ 31" "unat (sz :: 32 word) + 40 \<le> unat old"
  shows "ptr_add_bytes b (to_int (sint sz + int BLOCK_HEADER_SIZE)) = b + 24 + unat sz"
    "unat (word_of_int (sint sz) :: 32 word) = unat sz"
    "unat (word_of_int ((sint old - sint sz) - int BLOCK_HEADER_SIZE) :: 32 word)
       = unat old - unat sz - 24"
proof -
  define a where "a = unat sz"
  define c where "c = unat old"
  have ac: "c < 2147483648" "a + 40 \<le> c" using assms by (simp_all add: a_def c_def)
  have s1: "sint sz = int a" unfolding a_def by (rule sint_small) (use assms in simp)
  have s2: "sint old = int c" unfolding c_def by (rule sint_small) (use assms in simp)
  have "to_int (int a + 24) = int a + 24"
    by (rule to_int_small) (use ac in simp_all)
  then have "ptr_add_bytes b (to_int (sint sz + int BLOCK_HEADER_SIZE)) = b + 24 + a"
    unfolding s1 ptr_add_bytes_def BLOCK_HEADER_SIZE_def by (simp add: nat_add_distrib)
  then show "ptr_add_bytes b (to_int (sint sz + int BLOCK_HEADER_SIZE)) = b + 24 + unat sz"
    by (simp only: a_def)
  show "unat (word_of_int (sint sz) :: 32 word) = unat sz" by simp
  have e: "int c - int a - 24 = int (c - a - 24)"
    using ac by linarith
  have lt: "c - a - 24 < 2 ^ LENGTH(32)" using ac by simp
  have "(word_of_int ((sint old - sint sz) - int BLOCK_HEADER_SIZE) :: 32 word)
      = word_of_int (int (c - a - 24))"
    unfolding s1 s2 BLOCK_HEADER_SIZE_def using e by simp
  then have "unat (word_of_int ((sint old - sint sz) - int BLOCK_HEADER_SIZE) :: 32 word)
      = c - a - 24"
    using lt by (simp add: unat_of_nat)
  then show "unat (word_of_int ((sint old - sint sz) - int BLOCK_HEADER_SIZE) :: 32 word)
       = unat old - unat sz - 24"
    by (simp only: a_def c_def)
qed

subsection \<open>Handing over a whole free block\<close>

lemma bins_wf_alt: "bins_wf s B F = lists_wf s {b \<in> B. uses s b = 0} F"
  by (simp add: bins_wf_def uses_def)

lemma heap_wfI:
  "phys_wf base s B \<Longrightarrow> bins_wf s B F \<Longrightarrow>
   A = block_to_data ` {b \<in> B. uses s b = 1} \<Longrightarrow> heap_wf base s A"
  unfolding heap_wf_def uses_def by (intro exI [of _ B] exI [of _ F]) auto

lemma heap_wfE:
  assumes "heap_wf base s A"
  obtains B F where "phys_wf base s B" "bins_wf s B F"
    "A = block_to_data ` {b \<in> B. uses s b = 1}"
proof -
  from assms obtain B F where h: "phys_wf base s B" "bins_wf s B F"
    "A = {block_to_data b |b. b \<in> B \<and> in_use (mem s b) = 1}"
    unfolding heap_wf_def by blast
  have "A = block_to_data ` {b \<in> B. uses s b = 1}"
    unfolding h(3) uses_def by auto
  with h(1,2) show ?thesis by (rule that)
qed

lemma take_whole_wf:
  assumes pw: "phys_wf base s B" and bw: "bins_wf s B F" and cB: "c \<in> B" and fr: "uses s c = 0"
    and A: "A = block_to_data ` {b \<in> B. uses s b = 1}"
  shows "heap_wf base (remove_block c (set_in_use c 1 s)) (insert (block_to_data c) A)"
proof -
  let ?s = "remove_block c (set_in_use c 1 s)"
  have p: "phys_wf base ?s B"
    using pwf_use [OF pw [unfolded phys_wf_def], of c] by (simp add: phys_wf_def)
  let ?S = "{b \<in> B. uses s b = 0}"
  have "lists_wf (set_in_use c 1 s) ?S F"
    using bw by (simp add: bins_wf_alt lists_wf_set_in_use)
  moreover have "c \<in> ?S" using cB fr by simp
  ultimately have "lists_wf ?s (?S - {c})
      (F(size_to_bin (size_b (mem (set_in_use c 1 s) c))
           := remove1 c (F (size_to_bin (size_b (mem (set_in_use c 1 s) c))))))"
    by (rule lists_wf_remove)
  moreover have "?S - {c} = {b \<in> B. uses ?s b = 0}" by auto
  ultimately have b: "bins_wf ?s B
      (F(size_to_bin (size_b (mem (set_in_use c 1 s) c))
           := remove1 c (F (size_to_bin (size_b (mem (set_in_use c 1 s) c))))))"
    by (simp add: bins_wf_alt)
  have "insert (block_to_data c) A = block_to_data ` {b \<in> B. uses ?s b = 1}"
    using A cB by auto
  with p b show ?thesis by (rule heap_wfI)
qed

subsection \<open>Splitting a free block\<close>

lemma pwf_inside:
  assumes w: "pwf base ht bk sz us pp np B" and "b \<in> B" "b < e" "e < b + 24 + sz b"
  shows "e \<notin> B"
proof
  assume "e \<in> B"
  from pwf_D(7) [OF w assms(2) this assms(3)] assms(4) show False by simp
qed

lemma pwf_size_bound:
  assumes w: "pwf base ht bk sz us pp np B" and "b \<in> B"
  shows "sz b < 2 ^ 31" "0 < b"
  using pwf_D(1-3) [OF w] pwf_D(6) [OF w assms(2)] by linarith+

lemma split_block_state:
  assumes nz: "nexts s c \<noteq> 0" and lt: "sizes s c < 2 ^ 31" and fit: "unat sz + 40 \<le> sizes s c"
  shows "split_block c (sint sz) s =
    (c, insert_into_bin (c + 24 + unat sz)
          (set_prev_phys (nexts s c) (c + 24 + unat sz)
          (set_next_phys (c + 24 + unat sz) (nexts s c)
          (set_prev_phys (c + 24 + unat sz) c
          (set_next_phys c (c + 24 + unat sz)
          (set_size (c + 24 + unat sz) (word_of_nat (sizes s c - unat sz - 24))
          (set_in_use (c + 24 + unat sz) 0
          (set_size c sz
          (set_in_use c 1 (remove_block c s))))))))))"
proof -
  note a1 = split_arith(1) [where b = c, OF lt [unfolded sizes_def] fit [unfolded sizes_def]]
  note a3 = split_arith(3) [OF lt [unfolded sizes_def] fit [unfolded sizes_def]]
  have r: "(word_of_int (sint (size_b (mem s c)) - sint sz - int BLOCK_HEADER_SIZE) :: 32 word)
      = word_of_nat (sizes s c - unat sz - 24)"
  proof -
    have "unat (size_b (mem s c)) - (unat sz + 24) < 4294967296"
      using lt by (simp add: sizes_def)
    then show ?thesis
      using a3 by (simp add: word_unat_eq_iff sizes_def unat_of_nat)
  qed
  have n: "next_phys (mem s c) \<noteq> 0" using nz by (simp add: nexts_def)
  show ?thesis
    unfolding split_block_def Let_def a1 r
    using n by (simp add: nexts_def)
qed

lemma split_block_wf:
  assumes pw: "phys_wf base s B" and bw: "bins_wf s B F" and cB: "c \<in> B" and fr: "uses s c = 0"
    and A: "A = block_to_data ` {b \<in> B. uses s b = 1}"
    and w16: "16 \<le> unat (sz :: 32 word)" and w8: "8 dvd unat sz"
    and fit: "unat sz + 40 \<le> sizes s c"
  shows "heap_wf base (snd (split_block c (sint sz) s)) (insert (block_to_data c) A)"
    and "fst (split_block c (sint sz) s) = c"
    and "sizes (snd (split_block c (sint sz) s)) c = unat sz"
    and "uses (snd (split_block c (sint sz) s)) c = 1"
    and "brk (snd (split_block c (sint sz) s)) = brk s"
proof -
  note w = pw [unfolded phys_wf_def]
  note D = pwf_D [OF w]
  define e where "e = c + 24 + unat sz"
  define n where "n = c + 24 + sizes s c"
  define r where "r = sizes s c - unat sz - 24"
  have lt: "sizes s c < 2 ^ 31" "0 < c" using pwf_size_bound [OF w cB] by simp_all
  have nb: "n \<noteq> brk s" using D(14) [OF cB fr] by (simp add: n_def)
  have nx: "nexts s c = n" using D(8) [OF cB] nb by (simp add: n_def)
  have nz: "nexts s c \<noteq> 0" using nx by (simp add: n_def)
  have ord: "c < e" "e < n" "e \<noteq> 0" "e \<noteq> c" "n \<noteq> e" "n \<noteq> c"
    using fit by (simp_all add: e_def n_def)
  have eB: "e \<notin> B" using pwf_inside [OF w cB] ord by (simp add: n_def)
  have rr: "unat (word_of_nat r :: 32 word) = r"
    using lt by (simp add: unat_of_nat r_def)
  note st = split_block_state [OF nz lt(1) fit, folded e_def r_def, unfolded nx]
  let ?s = "snd (split_block c (sint sz) s)"
  show "fst (split_block c (sint sz) s) = c" by (simp add: st)
  have sz': "sizes ?s = (sizes s)(c := unat sz, e := r)" by (simp add: st rr)
  have us': "uses ?s = (uses s)(c := 1, e := 0)" by (simp add: st)
  have pp': "prevs ?s = (prevs s)(e := c, n := e)" by (simp add: st)
  have np': "nexts ?s = (nexts s)(c := e, e := n)" by (simp add: st)
  have ht': "heap_tail ?s = heap_tail s" "brk ?s = brk s" by (simp_all add: st)
  show "sizes ?s c = unat sz" using ord by (simp add: sz')
  show "uses ?s c = 1" using ord by (simp add: us')
  show "brk ?s = brk s" by (rule ht')
  have p: "phys_wf base ?s (insert e B)"
    unfolding phys_wf_def sz' us' pp' np' ht'
    using pwf_split [OF w cB fr w16 w8 fit] by (simp add: e_def n_def r_def)
  let ?S = "{b \<in> B. uses s b = 0}"
  have l0: "lists_wf s ?S F" using bw by (simp add: bins_wf_alt)
  have cS: "c \<in> ?S" using cB fr by simp
  note l1 = lists_wf_remove [OF l0 cS]
  have c1: "c \<notin> ?S - {c}" and e1: "e \<notin> ?S - {c}" using eB by auto
  have l2: "lists_wf (set_prev_phys n e (set_next_phys e n (set_prev_phys e c
      (set_next_phys c e (set_size e (word_of_nat r) (set_in_use e 0 (set_size c sz
      (set_in_use c 1 (remove_block c s)))))))))
      (?S - {c}) (F(size_to_bin (size_b (mem s c)) := remove1 c (F (size_to_bin (size_b (mem s c))))))"
    by (intro lists_wf_set_prev_phys lists_wf_set_next_phys lists_wf_set_size
        lists_wf_set_in_use l1 c1 e1)
  note l3 = lists_wf_insert [OF l2 e1 ord(3)]
  have "\<exists>F'. lists_wf ?s (insert e (?S - {c})) F'"
    unfolding st snd_conv by (rule exI, rule l3)
  then obtain F2 where l4: "lists_wf ?s (insert e (?S - {c})) F2" ..
  have seteq: "insert e (?S - {c}) = {b \<in> insert e B. uses ?s b = 0}"
    using ord eB by (auto simp add: us')
  have b: "\<exists>F'. bins_wf ?s (insert e B) F'"
    unfolding bins_wf_alt using l4 [unfolded seteq] by blast
  have "insert (block_to_data c) A = block_to_data ` {b \<in> insert e B. uses ?s b = 1}"
    using A cB ord eB by (auto simp add: us')
  with p b show "heap_wf base ?s (insert (block_to_data c) A)"
    by (auto intro: heap_wfI)
qed

subsection \<open>Growing the heap\<close>

lemma malloc_grow_wf:
  assumes pw: "phys_wf base s B" and bw: "bins_wf s B F"
    and A: "A = block_to_data ` {b \<in> B. uses s b = 1}"
    and w16: "16 \<le> unat (sz :: 32 word)" and w8: "8 dvd unat sz"
    and lim: "brk s + 24 + unat sz - base < 2 ^ 31"
  shows "heap_wf base (snd (malloc_grow sz s)) (insert (block_to_data (brk s)) A)"
    and "fst (malloc_grow sz s) = brk s"
    and "sizes (snd (malloc_grow sz s)) (brk s) = unat sz"
    and "uses (snd (malloc_grow sz s)) (brk s) = 1"
    and "brk s \<noteq> 0"
proof -
  note w = pw [unfolded phys_wf_def]
  note D = pwf_D [OF w]
  let ?s = "snd (malloc_grow sz s)"
  have bkB: "brk s \<notin> B" using D(6) [of "brk s"] by auto
  show "brk s \<noteq> 0" using D(1,2) by simp
  show "fst (malloc_grow sz s) = brk s" by (simp add: malloc_grow_def Let_def)
  have sz': "sizes ?s = (sizes s)(brk s := unat sz)"
    by (simp add: malloc_grow_def link_onto_end_def Let_def)
  have us': "uses ?s = (uses s)(brk s := 1)"
    by (simp add: malloc_grow_def link_onto_end_def Let_def)
  have pp': "prevs ?s = (prevs s)(brk s := heap_tail s)"
    by (simp add: malloc_grow_def link_onto_end_def Let_def)
  have np': "nexts ?s = (if heap_tail s = 0 then nexts s else (nexts s)(heap_tail s := brk s))(brk s := 0)"
    by (simp add: malloc_grow_def link_onto_end_def Let_def)
  have ht': "heap_tail ?s = brk s" "brk ?s = brk s + 24 + unat sz"
    by (simp_all add: malloc_grow_def link_onto_end_def Let_def BLOCK_HEADER_SIZE_def)
  show "sizes ?s (brk s) = unat sz" by (simp add: sz')
  show "uses ?s (brk s) = 1" by (simp add: us')
  have p: "phys_wf base ?s (insert (brk s) B)"
    unfolding phys_wf_def sz' us' pp' np' ht'
    using pwf_grow [OF w w16 w8 lim] .
  let ?S = "{b \<in> B. uses s b = 0}"
  have l0: "lists_wf s ?S F" using bw by (simp add: bins_wf_alt)
  have "lists_wf ?s ?S F"
    by (rule lists_wf_frame [OF l0])
      (use bkB in \<open>auto simp add: malloc_grow_def link_onto_end_def Let_def set_defs\<close>)
  moreover have "?S = {b \<in> insert (brk s) B. uses ?s b = 0}"
    using bkB by (auto simp add: us')
  ultimately have b: "bins_wf ?s (insert (brk s) B) F"
    unfolding bins_wf_alt by simp
  have "insert (block_to_data (brk s)) A
      = block_to_data ` {b \<in> insert (brk s) B. uses ?s b = 1}"
    using A bkB by (auto simp add: us')
  with p b show "heap_wf base ?s (insert (block_to_data (brk s)) A)"
    by (rule heap_wfI)
qed

subsection \<open>The two searches\<close>

lemma find_split_cases:
  "find_split sz i s = (b, s') \<Longrightarrow>
     (b = 0 \<and> s' = s) \<or>
     (\<exists>idx. i \<le> idx \<and> idx < OVERFLOW_BIN \<and> b = bins s idx \<and> b \<noteq> 0
            \<and> MINIMUM_BLOCK_SIZE \<le> unat (size_b (mem s b) - sz) \<and> s' = remove_block b s)"
proof (induction sz i s rule: find_split.induct)
  case (1 sz index s)
  show ?case
  proof (cases "index < OVERFLOW_BIN")
    case False
    then show ?thesis using "1.prems" by (simp add: find_split.simps [of sz index s])
  next
    case True
    show ?thesis
    proof (cases "bins s index \<noteq> 0 \<and> \<not> unat (size_b (mem s (bins s index)) - sz) < MINIMUM_BLOCK_SIZE")
      case True
      then show ?thesis using "1.prems" \<open>index < OVERFLOW_BIN\<close>
        by (auto simp add: find_split.simps [of sz index s] Let_def)
    next
      case False
      then have r: "find_split sz (index + 1) s = (b, s')"
        using "1.prems" True by (auto simp add: find_split.simps [of sz index s] Let_def split: if_splits)
      have "(b = 0 \<and> s' = s) \<or>
        (\<exists>idx. index + 1 \<le> idx \<and> idx < OVERFLOW_BIN \<and> b = bins s idx \<and> b \<noteq> 0
            \<and> MINIMUM_BLOCK_SIZE \<le> unat (size_b (mem s b) - sz) \<and> s' = remove_block b s)"
      proof (cases "bins s index \<noteq> 0")
        case True
        with False have lt: "unat (size_b (mem s (bins s index)) - sz) < MINIMUM_BLOCK_SIZE" by simp
        show ?thesis using "1.IH"(1) [OF \<open>index < OVERFLOW_BIN\<close> True refl lt r] .
      next
        case False
        show ?thesis using "1.IH"(2) [OF \<open>index < OVERFLOW_BIN\<close> False r] .
      qed
      then show ?thesis by (metis Suc_eq_plus1 Suc_leD)
    qed
  qed
qed

lemma first_fit_dll:
  "dll m prev p xs \<Longrightarrow>
     \<exists>r. first_fit m sz p = Some r \<and> (r = 0 \<or> (r \<in> set xs \<and> sz \<le> size_b (m r)))"
proof (induction xs arbitrary: prev p)
  case Nil
  then show ?case by (simp add: first_fit.simps)
next
  case (Cons x xs)
  then have px: "p = x" "x \<noteq> 0" and d: "dll m x (next_free (m x)) xs" by simp_all
  show ?case
  proof (cases "sz \<le> size_b (m x)")
    case True
    then show ?thesis using px by (subst first_fit.simps) simp
  next
    case False
    from Cons.IH [OF d] obtain r where "first_fit m sz (next_free (m x)) = Some r"
      "r = 0 \<or> (r \<in> set xs \<and> sz \<le> size_b (m r))" by blast
    then show ?thesis using px False by (subst first_fit.simps) auto
  qed
qed

lemma bin_head:
  assumes "lists_wf s S F" and "bins s i \<noteq> 0"
  shows "bins s i \<in> S" "size_to_bin (size_b (mem s (bins s i))) = i"
    "prev_free (mem s (bins s i)) = 0"
proof -
  have d: "dll (mem s) 0 (bins s i) (F i)"
    and st: "set (F i) = {b \<in> S. size_to_bin (size_b (mem s b)) = i}"
    using assms(1) by (simp_all add: lists_wf_def)
  obtain xs where f: "F i = bins s i # xs"
    using d assms(2) by (cases "F i") auto
  then have "bins s i \<in> set (F i)" by simp
  then show "bins s i \<in> S" "size_to_bin (size_b (mem s (bins s i))) = i" using st by auto
  show "prev_free (mem s (bins s i)) = 0" using d f by simp
qed

lemma small_bin_size:
  assumes "16 \<le> unat x" "8 dvd unat x" "size_to_bin x = i" "i < 63"
  shows "unat x = 16 + 8 * i"
proof -
  have "(unat x - 16) div 8 = i" using size_to_bin_aligned [OF assms(1,2)] assms(3,4) by simp
  moreover have "8 dvd (unat x - 16)" using assms(2) by (simp add: dvd_diff_nat)
  ultimately show ?thesis using assms(1) by (auto elim!: dvdE)
qed

lemma remove_block_idem:
  "prev_free (mem s b) = 0 \<Longrightarrow> remove_block b (remove_block b s) = remove_block b s"
  by (auto simp add: remove_block_def Let_def set_defs fun_upd_twist)

lemma split_after_remove:
  "prev_free (mem s b) = 0 \<Longrightarrow> split_block b w (remove_block b s) = split_block b w s"
  by (simp add: split_block_def remove_block_idem)

subsection \<open>The paths of my_malloc\<close>

lemma malloc_small_wf:
  assumes pw: "phys_wf base s B" and bw: "bins_wf s B F"
    and A: "A = block_to_data ` {b \<in> B. uses s b = 1}"
    and w16: "16 \<le> unat (sz :: 32 word)" and w8: "8 dvd unat sz" and szl: "unat sz + 40 < 2 ^ 32"
  shows "malloc_small sz s = (0, s) \<or>
     (fst (malloc_small sz s) \<noteq> 0
      \<and> heap_wf base (snd (malloc_small sz s)) (insert (block_to_data (fst (malloc_small sz s))) A)
      \<and> unat sz \<le> sizes (snd (malloc_small sz s)) (fst (malloc_small sz s))
      \<and> uses (snd (malloc_small sz s)) (fst (malloc_small sz s)) = 1
      \<and> brk (snd (malloc_small sz s)) = brk s)"
proof -
  note w = pw [unfolded phys_wf_def]
  note D = pwf_D [OF w]
  let ?S = "{b \<in> B. uses s b = 0}"
  have l0: "lists_wf s ?S F" using bw by (simp add: bins_wf_alt)
  define i where "i = size_to_bin sz"
  consider (exact) "i < OVERFLOW_BIN" "bins s i \<noteq> 0"
    | (search) "i < OVERFLOW_BIN" "bins s i = 0"
    | (none) "\<not> i < OVERFLOW_BIN" by blast
  then show ?thesis
  proof cases
    case exact
    define c where "c = bins s i"
    have c0: "c \<noteq> 0" using exact by (simp add: c_def)
    note h = bin_head [OF l0 exact(2), folded c_def]
    have cB: "c \<in> B" and fr: "uses s c = 0" using h(1) by simp_all
    have i63: "i < 63" using exact(1) by (simp add: consts_defs)
    have "unat (size_b (mem s c)) = 16 + 8 * i"
      using small_bin_size [OF _ _ h(2) i63] D(13) [OF cB] by (simp add: sizes_def)
    moreover have "unat sz = 16 + 8 * i"
      using small_bin_size [OF w16 w8 _ i63] by (simp add: i_def)
    ultimately have se: "sizes s c = unat sz" by (simp add: sizes_def)
    have m: "malloc_small sz s = (c, remove_block c (set_in_use c 1 s))"
      using exact by (simp add: malloc_small_def Let_def i_def [symmetric] c_def)
    show ?thesis
      unfolding m using take_whole_wf [OF pw bw cB fr A] c0 se by simp
  next
    case search
    obtain b s1 where fs: "find_split sz (size_to_bin (sz + word_of_nat MINIMUM_BLOCK_SIZE)) s = (b, s1)"
      by (cases "find_split sz (size_to_bin (sz + word_of_nat MINIMUM_BLOCK_SIZE)) s") auto
    have m: "malloc_small sz s = (if b \<noteq> 0 then split_block b (sint sz) s1 else (0, s1))"
      using search fs by (simp add: malloc_small_def Let_def i_def [symmetric])
    from find_split_cases [OF fs] show ?thesis
    proof (elim disjE conjE exE)
      assume "b = 0" "s1 = s"
      then show ?thesis using m by simp
    next
      fix idx
      assume idx: "size_to_bin (sz + word_of_nat MINIMUM_BLOCK_SIZE) \<le> idx" "idx < OVERFLOW_BIN"
        and b: "b = bins s idx" "b \<noteq> 0" and s1: "s1 = remove_block b s"
      have nz: "bins s idx \<noteq> 0" using b by simp
      note h = bin_head [OF l0 nz, folded b(1)]
      have bB: "b \<in> B" and fr: "uses s b = 0" using h(1) by simp_all
      have i63: "idx < 63" using idx(2) by (simp add: consts_defs)
      have sb: "sizes s b = 16 + 8 * idx"
        using small_bin_size [OF _ _ h(2) i63] D(13) [OF bB] by (simp add: sizes_def)
      have u40: "unat (sz + 40) = unat sz + 40"
        using szl by (simp add: unat_word_ariths)
      have "size_to_bin (sz + 40) = min 63 ((unat (sz + 40) - 16) div 8)"
        by (rule size_to_bin_aligned) (use w16 w8 u40 in simp_all)
      then have "(unat sz + 24) div 8 \<le> idx"
        using idx(1) i63 u40 by (simp add: consts_defs)
      then have fit: "unat sz + 40 \<le> sizes s b"
        using w8 sb by (auto elim!: dvdE)
      have m': "malloc_small sz s = split_block b (sint sz) s"
        using m b s1 split_after_remove [OF h(3)] by simp
      show ?thesis
        unfolding m' using split_block_wf [OF pw bw bB fr A w16 w8 fit] b(2) by simp
    qed
  next
    case none
    then show ?thesis by (simp add: malloc_small_def Let_def i_def [symmetric])
  qed
qed

lemma malloc_overflow_wf:
  assumes pw: "phys_wf base s B" and bw: "bins_wf s B F"
    and A: "A = block_to_data ` {b \<in> B. uses s b = 1}"
    and w16: "16 \<le> unat (sz :: 32 word)" and w8: "8 dvd unat sz"
  shows "\<exists>r. malloc_overflow sz s = Some r \<and>
     (r = (0, s) \<or>
      (fst r \<noteq> 0
       \<and> heap_wf base (snd r) (insert (block_to_data (fst r)) A)
       \<and> unat sz \<le> sizes (snd r) (fst r)
       \<and> uses (snd r) (fst r) = 1
       \<and> brk (snd r) = brk s))"
proof -
  note w = pw [unfolded phys_wf_def]
  let ?S = "{b \<in> B. uses s b = 0}"
  have l0: "lists_wf s ?S F" using bw by (simp add: bins_wf_alt)
  have d: "dll (mem s) 0 (bins s OVERFLOW_BIN) (F OVERFLOW_BIN)"
    and st: "set (F OVERFLOW_BIN) \<subseteq> ?S"
    using l0 by (auto simp add: lists_wf_def)
  from first_fit_dll [OF d, of sz] obtain c where
    ff: "first_fit (mem s) sz (bins s OVERFLOW_BIN) = Some c"
    and c: "c = 0 \<or> (c \<in> set (F OVERFLOW_BIN) \<and> sz \<le> size_b (mem s c))" by blast
  show ?thesis
  proof (cases "c = 0")
    case True
    then show ?thesis using ff by (simp add: malloc_overflow_def)
  next
    case False
    then have cB: "c \<in> B" and fr: "uses s c = 0" and le: "sz \<le> size_b (mem s c)"
      using c st by auto
    have sub: "unat (size_b (mem s c) - sz) = sizes s c - unat sz"
      using le by (simp add: unat_sub sizes_def)
    have le': "unat sz \<le> sizes s c" using le by (simp add: word_le_nat_alt sizes_def)
    show ?thesis
    proof (cases "MINIMUM_BLOCK_SIZE \<le> unat (size_b (mem s c) - sz)")
      case True
      then have fit: "unat sz + 40 \<le> sizes s c" using sub le' by (simp add: consts_defs)
      have m: "malloc_overflow sz s = Some (split_block c (sint sz) s)"
        using ff False True by (simp add: malloc_overflow_def)
      show ?thesis
        unfolding m using split_block_wf [OF pw bw cB fr A w16 w8 fit] False by simp
    next
      case nofit: False
      have m: "malloc_overflow sz s = Some (c, remove_block c (set_in_use c 1 s))"
        using ff False nofit by (simp add: malloc_overflow_def)
      show ?thesis
        unfolding m using take_whole_wf [OF pw bw cB fr A] False le' by simp
    qed
  qed
qed

lemma block_data_inverse: "data_to_block (block_to_data c) = c"
  by (simp add: block_to_data_eq data_to_block_eq)

lemma split_block_fst: "fst (split_block b w s) = b"
  by (simp add: split_block_def Let_def)

lemma malloc_small_null:
  assumes "malloc_small sz s = (0, s1)"
  shows "s1 = s"
proof -
  obtain b t where fs: "find_split sz (size_to_bin (sz + word_of_nat MINIMUM_BLOCK_SIZE)) s = (b, t)"
    by (cases "find_split sz (size_to_bin (sz + word_of_nat MINIMUM_BLOCK_SIZE)) s") auto
  have "b \<noteq> 0 \<Longrightarrow> fst (split_block b (sint sz) t) \<noteq> 0" by (simp add: split_block_fst)
  moreover have "b = 0 \<Longrightarrow> t = s" using find_split_cases [OF fs] by auto
  ultimately show ?thesis
    using assms fs by (auto simp add: malloc_small_def Let_def split: if_splits)
qed

lemma malloc_overflow_total:
  assumes "dll (mem s) 0 (bins s OVERFLOW_BIN) xs"
  shows "\<exists>r. malloc_overflow sz s = Some r"
proof -
  from first_fit_dll [OF assms, of sz] obtain c where
    "first_fit (mem s) sz (bins s OVERFLOW_BIN) = Some c" by blast
  then show ?thesis by (simp add: malloc_overflow_def)
qed

lemma my_malloc_total:
  assumes hw: "heap_wf base s A"
  shows "\<exists>p s'. my_malloc n s = Some (p, s')"
proof -
  from hw obtain B F where pw: "phys_wf base s B" and bw: "bins_wf s B F" by (rule heap_wfE)
  have d: "dll (mem s) 0 (bins s OVERFLOW_BIN) (F OVERFLOW_BIN)"
    using bw by (simp add: bins_wf_alt lists_wf_def)
  show ?thesis
  proof (cases "n = 0")
    case True
    then show ?thesis by (simp add: my_malloc_def)
  next
    case False
    obtain a s1 where ms: "malloc_small (round_up_size n) s = (a, s1)"
      by (cases "malloc_small (round_up_size n) s") auto
    show ?thesis
    proof (cases "a = 0")
      case a0: True
      then have "s1 = s" using malloc_small_null ms by blast
      moreover obtain c s2 where "malloc_overflow (round_up_size n) s = Some (c, s2)"
        using malloc_overflow_total [OF d, of "round_up_size n"] by auto
      ultimately show ?thesis
        using False ms a0 by (simp add: my_malloc_def Let_def split_def)
    next
      case a1: False
      then show ?thesis using False ms by (simp add: my_malloc_def Let_def split_def)
    qed
  qed
qed

lemma my_malloc_wf:
  assumes hw: "heap_wf base s A" and n0: "n \<noteq> 0" and nl: "unat n < 2 ^ 31"
    and m: "my_malloc n s = Some (p, s')"
    and lim: "brk s + 24 + unat (round_up_size n) - base < 2 ^ 31 \<or> brk s' - base < 2 ^ 31"
  shows "heap_wf base s' (insert p A)" "p \<noteq> 0" "uses s' (data_to_block p) = 1"
    "unat n \<le> sizes s' (data_to_block p)"
proof -
  from hw obtain B F where pw: "phys_wf base s B" and bw: "bins_wf s B F"
    and A: "A = block_to_data ` {b \<in> B. uses s b = 1}" by (rule heap_wfE)
  define sz where "sz = round_up_size n"
  have np: "0 < unat n" using n0 by (simp add: unat_gt_0)
  note rb = round_up_size_bounds [OF np nl, folded sz_def]
  have szl: "unat sz + 40 < 2 ^ 32" using rb(4) nl by simp
  obtain a s1 where ms: "malloc_small sz s = (a, s1)"
    by (cases "malloc_small sz s") auto
  have served: "heap_wf base s' (insert p A) \<and> p \<noteq> 0 \<and> uses s' (data_to_block p) = 1
      \<and> unat n \<le> sizes s' (data_to_block p)"
    if "p = block_to_data c" "heap_wf base s' (insert (block_to_data c) A)"
      "unat sz \<le> sizes s' c" "uses s' c = 1" for c
    using that rb(3) by (simp add: block_data_inverse) (simp add: block_to_data_eq)
  have "heap_wf base s' (insert p A) \<and> p \<noteq> 0 \<and> uses s' (data_to_block p) = 1
      \<and> unat n \<le> sizes s' (data_to_block p)"
  proof (cases "a = 0")
    case False
    then have r: "p = block_to_data a" "s' = s1"
      using m n0 ms by (simp_all add: my_malloc_def Let_def sz_def [symmetric])
    from malloc_small_wf [OF pw bw A rb(1,2) szl] False ms
    show ?thesis by (intro served [of a]) (simp_all add: r)
  next
    case True
    then have s1: "s1 = s" using malloc_small_null ms by blast
    from malloc_overflow_wf [OF pw bw A rb(1,2)] obtain r where
      ov: "malloc_overflow sz s = Some r"
      and rc: "r = (0, s) \<or>
        (fst r \<noteq> 0 \<and> heap_wf base (snd r) (insert (block_to_data (fst r)) A)
         \<and> unat sz \<le> sizes (snd r) (fst r) \<and> uses (snd r) (fst r) = 1 \<and> brk (snd r) = brk s)"
      by blast
    show ?thesis
    proof (cases "fst r = 0")
      case False
      then have e: "p = block_to_data (fst r)" "s' = snd r"
        using m n0 ms True s1 ov
        by (simp_all add: my_malloc_def Let_def sz_def [symmetric] split_def)
      from rc False show ?thesis by (intro served [of "fst r"]) (auto simp add: e)
    next
      case r0: True
      then have rr: "r = (0, s)" using rc by auto
      have e: "p = block_to_data (fst (malloc_grow sz s))" "s' = snd (malloc_grow sz s)"
        using m n0 ms True s1 ov rr
        by (simp_all add: my_malloc_def Let_def sz_def [symmetric] split_def)
      have "brk s' = brk s + 24 + unat sz"
        by (simp add: e malloc_grow_def link_onto_end_def Let_def BLOCK_HEADER_SIZE_def)
      then have lim': "brk s + 24 + unat sz - base < 2 ^ 31" using lim by (auto simp add: sz_def)
      note g = malloc_grow_wf [OF pw bw A rb(1,2) lim']
      show ?thesis by (intro served [of "brk s"]) (simp_all add: e g)
    qed
  qed
  then show "heap_wf base s' (insert p A)" "p \<noteq> 0" "uses s' (data_to_block p) = 1"
    "unat n \<le> sizes s' (data_to_block p)" by simp_all
qed

subsection \<open>The paths of my_free\<close>

lemma nbr_facts:
  assumes w: "pwf base ht bk sz us pp np B" and bB: "b \<in> B"
  shows "b \<noteq> 0"
    and "np b = 0 \<longleftrightarrow> b + 24 + sz b = bk"
    and "np b \<noteq> 0 \<Longrightarrow> np b = b + 24 + sz b \<and> np b \<in> B \<and> pp (np b) = b \<and> np b \<noteq> b"
    and "pp b = 0 \<longleftrightarrow> b = base"
    and "pp b \<noteq> 0 \<Longrightarrow> pp b \<in> B \<and> pp b + 24 + sz (pp b) = b \<and> np (pp b) = b \<and> pp b \<noteq> b"
    and "b + 24 + sz b = bk \<Longrightarrow> ht = b"
    and "\<And>x. x \<in> B \<Longrightarrow> b + 24 + sz b = bk \<Longrightarrow> x \<le> b"
proof -
  note D = pwf_D [OF w]
  show b0: "b \<noteq> 0" using D(1) D(6) [OF bB] by simp
  show n0: "np b = 0 \<longleftrightarrow> b + 24 + sz b = bk" using D(8) [OF bB] by simp
  show "np b = b + 24 + sz b \<and> np b \<in> B \<and> pp (np b) = b \<and> np b \<noteq> b" if "np b \<noteq> 0"
  proof -
    have e: "b + 24 + sz b \<noteq> bk" using that n0 by simp
    then have "np b = b + 24 + sz b" using D(8) [OF bB] by simp
    then show ?thesis using D(9) [OF bB e] pwf_prev_of_next [OF w bB e] by simp
  qed
  have pz: "pp x \<noteq> 0" if "x \<in> B" "x \<noteq> base" for x
    using D(11) [OF that] D(6) [of "pp x"] D(1) by auto
  show p0: "pp b = 0 \<longleftrightarrow> b = base"
    using D(10) [OF bB] pz [OF bB] by (cases "b = base") simp_all
  show "pp b \<in> B \<and> pp b + 24 + sz (pp b) = b \<and> np (pp b) = b \<and> pp b \<noteq> b" if "pp b \<noteq> 0"
  proof -
    have nb: "b \<noteq> base" using that p0 by simp
    note P = D(11) [OF bB nb]
    have "pp b + 24 + sz (pp b) \<noteq> bk" using P D(6) [OF bB] by simp
    then have "np (pp b) = b" using D(8) [of "pp b"] P by simp
    then show ?thesis using P by auto
  qed
  show "ht = b" if "b + 24 + sz b = bk"
  proof -
    have "B \<noteq> {}" using bB by auto
    then have "ht \<in> B" "ht + 24 + sz ht = bk" using D(5) by simp_all
    then show ?thesis using pwf_end_inj [OF w bB, of ht] that by simp
  qed
  show "x \<le> b" if "x \<in> B" "b + 24 + sz b = bk" for x
  proof (rule ccontr)
    assume "\<not> x \<le> b"
    then have "b < x" by simp
    from D(7) [OF bB that(1) this] D(6) [OF that(1)] that(2) show False by simp
  qed
qed

lemma live_remove:
  "block_to_data ` (U - {b}) = block_to_data ` U - {block_to_data b}"
  by (auto simp add: block_to_data_eq)

lemma bins_wfI: "lists_wf s S F' \<Longrightarrow> S = {x \<in> B. uses s x = 0} \<Longrightarrow> \<exists>F'. bins_wf s B F'"
  unfolding bins_wf_alt by blast

lemma free_no_merge_wf:
  assumes pw: "phys_wf base s B" and bw: "bins_wf s B F" and bB: "b \<in> B" and us: "uses s b = 1"
    and A: "A = block_to_data ` {b \<in> B. uses s b = 1}"
    and nz: "nexts s b \<noteq> 0" and nu: "uses s (nexts s b) = 1"
    and pu: "prevs s b = 0 \<or> uses s (prevs s b) = 1"
  shows "heap_wf base (insert_into_bin b (set_in_use b 0 s)) (A - {block_to_data b})"
proof -
  note w = pw [unfolded phys_wf_def]
  note N = nbr_facts [OF w bB]
  let ?s = "insert_into_bin b (set_in_use b 0 s)"
  have "pwf base (heap_tail s) (brk s) (sizes s) ((uses s)(b := 0)) (prevs s) (nexts s) B"
    using pwf_free_mark [OF w bB] N(2,3,4) nz nu pu by auto
  then have p: "phys_wf base ?s B" by (simp add: phys_wf_def)
  let ?S = "{b \<in> B. uses s b = 0}"
  have l0: "lists_wf (set_in_use b 0 s) ?S F" using bw by (simp add: bins_wf_alt lists_wf_set_in_use)
  have bS: "b \<notin> ?S" using us by simp
  note l1 = lists_wf_insert [OF l0 bS N(1)]
  have b: "\<exists>F'. bins_wf ?s B F'"
    by (rule bins_wfI [OF l1]) (use bB in auto)
  from b obtain F' where b': "bins_wf ?s B F'" ..
  have "{x \<in> B. uses ?s x = 1} = {x \<in> B. uses s x = 1} - {b}" by auto
  then have "A - {block_to_data b} = block_to_data ` {x \<in> B. uses ?s x = 1}"
    by (simp only: A live_remove)
  with p b' show ?thesis by (rule heap_wfI)
qed

lemma unlink_block_frame [simp]:
  "sizes (unlink_block s) = sizes s" "uses (unlink_block s) = uses s"
  "prevs (unlink_block s) = prevs s"
  by (simp_all add: unlink_block_def Let_def)

lemma unlink_block_bins [simp]: "bins (unlink_block s) = bins s"
  by (simp add: unlink_block_def Let_def set_defs)

lemma pop_wf:
  assumes pw: "phys_wf base s B" and cB: "c \<in> B"
    and pu: "prevs s c = 0 \<or> uses s (prevs s c) = 1"
    and ht: "heap_tail s' = prevs s c" and bk: "brk s' = c"
    and eq: "\<And>x. x \<in> B \<Longrightarrow> x < c \<Longrightarrow>
      sizes s' x = sizes s x \<and> uses s' x = uses s x \<and> prevs s' x = prevs s x
      \<and> nexts s' x = (if x = prevs s c then 0 else nexts s x)"
  shows "phys_wf base s' {x \<in> B. x < c}"
proof -
  note w = pw [unfolded phys_wf_def]
  note N = nbr_facts [OF w cB]
  have "c = base \<or> uses s (prevs s c) = 1" using pu N(4) by auto
  from pwf_truncate [OF w cB this] show ?thesis
    unfolding phys_wf_def ht bk
    by (rule pwf_cong) (use eq in auto)
qed

lemma free_tail_wf:
  assumes pw: "phys_wf base s B" and bw: "bins_wf s B F" and bB: "b \<in> B" and us: "uses s b = 1"
    and A: "A = block_to_data ` {b \<in> B. uses s b = 1}"
    and nz: "nexts s b = 0"
    and pu: "prevs s b = 0 \<or> uses s (prevs s b) = 1"
  shows "heap_wf base ((unlink_block s)\<lparr>brk := b\<rparr>) (A - {block_to_data b})"
proof -
  note w = pw [unfolded phys_wf_def]
  note N = nbr_facts [OF w bB]
  let ?s = "(unlink_block s)\<lparr>brk := b\<rparr>"
  have tl: "heap_tail s = b" using N(2,6) nz by simp
  have top: "x \<le> b" if "x \<in> B" for x using N(7) [OF that] N(2) nz by simp
  have Beq: "{x \<in> B. x < b} = B - {b}" using top by (auto simp add: le_less)
  have nzB: "x \<noteq> 0" if "x \<in> B" for x using nbr_facts(1) [OF w that] .
  have p: "phys_wf base ?s (B - {b})"
    unfolding Beq [symmetric]
    by (rule pop_wf [OF pw bB pu])
      (use tl N(1) nzB in \<open>auto simp add: unlink_block_def Let_def field_reads\<close>)
  let ?S = "{b \<in> B. uses s b = 0}"
  have l0: "lists_wf s ?S F" using bw by (simp add: bins_wf_alt)
  have l1: "lists_wf ?s ?S F"
    by (rule lists_wf_frame [OF l0]) (auto simp add: unlink_block_def Let_def set_defs)
  have b: "\<exists>F'. bins_wf ?s (B - {b}) F'"
    by (rule bins_wfI [OF l1]) (use us in auto)
  from b obtain F' where b': "bins_wf ?s (B - {b}) F'" ..
  have "{x \<in> B - {b}. uses ?s x = 1} = {x \<in> B. uses s x = 1} - {b}" by auto
  then have "A - {block_to_data b} = block_to_data ` {x \<in> B - {b}. uses ?s x = 1}"
    by (simp only: A live_remove)
  with p b' show ?thesis by (rule heap_wfI)
qed

lemma setter_reads:
  "size_b (mem (set_size p v s) q) = (if q = p then v else size_b (mem s q))"
  "size_b (mem (set_in_use p i s) q) = size_b (mem s q)"
  "size_b (mem (set_prev_phys p x s) q) = size_b (mem s q)"
  "size_b (mem (set_next_phys p x s) q) = size_b (mem s q)"
  "next_phys (mem (set_size p v s) q) = next_phys (mem s q)"
  "next_phys (mem (set_in_use p i s) q) = next_phys (mem s q)"
  "next_phys (mem (set_prev_phys p x s) q) = next_phys (mem s q)"
  "next_phys (mem (set_next_phys p x s) q) = (if q = p then x else next_phys (mem s q))"
  "prev_phys (mem (set_size p v s) q) = prev_phys (mem s q)"
  "prev_phys (mem (set_in_use p i s) q) = prev_phys (mem s q)"
  "prev_phys (mem (set_next_phys p x s) q) = prev_phys (mem s q)"
  "prev_phys (mem (set_prev_phys p x s) q) = (if q = p then x else prev_phys (mem s q))"
  by (simp_all add: set_defs)

lemma unat_sum3:
  assumes "a + b + 24 < 2 ^ 32"
  shows "unat ((word_of_nat a :: 32 word) + (word_of_nat b + 24)) = a + b + 24"
proof -
  have "(word_of_nat a :: 32 word) + (word_of_nat b + 24) = word_of_nat (a + b + 24)" by simp
  then show ?thesis using assms by (simp only: unat_of_nat) simp
qed

lemma free_merge_next_wf:
  assumes pw: "phys_wf base s B" and bw: "bins_wf s B F" and bB: "b \<in> B" and us: "uses s b = 1"
    and A: "A = block_to_data ` {b \<in> B. uses s b = 1}"
    and nz: "nexts s b \<noteq> 0" and nf: "uses s (nexts s b) = 0"
    and pu: "prevs s b = 0 \<or> uses s (prevs s b) = 1"
  shows "heap_wf base (insert_into_bin (fst (coalesce_next b s))
           (set_in_use (fst (coalesce_next b s)) 0 (snd (coalesce_next b s))))
           (A - {block_to_data b})"
    and "next_phys (mem (snd (coalesce_next b s)) (fst (coalesce_next b s))) \<noteq> 0"
proof -
  note w = pw [unfolded phys_wf_def]
  note D = pwf_D [OF w]
  note N = nbr_facts [OF w bB]
  define n where "n = nexts s b"
  have n: "n = b + 24 + sizes s b" "n \<in> B" "n \<noteq> b" "n \<noteq> brk s"
    using N(3) [OF nz] N(2) nz by (auto simp add: n_def)
  have nfree: "uses s n = 0" using nf by (simp add: n_def)
  note Nn = nbr_facts [OF w n(2)]
  define nn where "nn = nexts s n"
  have Q: "n + 24 + sizes s n \<noteq> brk s" using D(14) [OF n(2) nfree] by simp
  then have nnz: "nn \<noteq> 0" using Nn(2) by (simp add: nn_def)
  have nn: "nn = n + 24 + sizes s n" "nn \<in> B" using Nn(3) nnz by (auto simp add: nn_def)
  have sum: "sizes s n + sizes s b + 24 < 2 ^ 32"
    using D(6) [OF nn(2)] D(6) [OF bB] D(1-3) nn(1) n(1) by simp
  have rd: "next_phys (mem s b) = n" "next_phys (mem s n) = nn"
    by (simp_all add: n_def nn_def nexts_def)
  have cn: "coalesce_next b s =
      (b, set_prev_phys nn b (set_next_phys b nn (set_in_use b 0
            (set_size b (size_b (mem s n) + (size_b (mem s b) + 24)) (remove_block n s)))))"
    using n(3) nnz
    by (simp add: coalesce_next_def Let_def splice_next_def setter_reads rd BLOCK_HEADER_SIZE_def)
  show "next_phys (mem (snd (coalesce_next b s)) (fst (coalesce_next b s))) \<noteq> 0"
    using nnz by (simp add: cn setter_reads)
  define t where "t = insert_into_bin b (set_in_use b 0 (set_prev_phys nn b (set_next_phys b nn
      (set_in_use b 0 (set_size b (size_b (mem s n) + (size_b (mem s b) + 24)) (remove_block n s))))))"
  have st: "insert_into_bin (fst (coalesce_next b s))
           (set_in_use (fst (coalesce_next b s)) 0 (snd (coalesce_next b s))) = t"
    by (simp add: cn t_def)
  have sw: "unat (size_b (mem s n) + (size_b (mem s b) + 24)) = sizes s b + 24 + sizes s n"
    using unat_sum3 [OF sum] by (simp add: sizes_def)
  have sz': "sizes t = (sizes s)(b := sizes s b + 24 + sizes s n)" by (simp add: t_def sw)
  have us': "uses t = (uses s)(b := 0)" by (simp add: t_def)
  have pp': "prevs t = (prevs s)(nn := b)" by (simp add: t_def)
  have np': "nexts t = (nexts s)(b := nn)" by (simp add: t_def)
  have ht': "heap_tail t = heap_tail s" "brk t = brk s" by (simp_all add: t_def)
  have pu': "b = base \<or> uses s (prevs s b) = 1" using pu N(4) by auto
  have p: "phys_wf base t (B - {n})"
    unfolding phys_wf_def sz' us' pp' np' ht'
    using pwf_merge_next [OF w bB _ _ pu'] n nfree nn by simp
  let ?S = "{b \<in> B. uses s b = 0}"
  have l0: "lists_wf s ?S F" using bw by (simp add: bins_wf_alt)
  have nS: "n \<in> ?S" using n nfree by simp
  note l1 = lists_wf_remove [OF l0 nS]
  have b1: "b \<notin> ?S - {n}" using us by simp
  have l2: "lists_wf (set_in_use b 0 (set_prev_phys nn b (set_next_phys b nn (set_in_use b 0
            (set_size b (size_b (mem s n) + (size_b (mem s b) + 24)) (remove_block n s))))))
      (?S - {n}) (F(size_to_bin (size_b (mem s n)) := remove1 n (F (size_to_bin (size_b (mem s n))))))"
    by (intro lists_wf_set_prev_phys lists_wf_set_next_phys lists_wf_set_size
        lists_wf_set_in_use l1 b1)
  note l3 = lists_wf_insert [OF l2 b1 N(1)]
  have "\<exists>F'. lists_wf t (insert b (?S - {n})) F'"
    unfolding t_def by (rule exI, rule l3)
  then obtain F2 where l4: "lists_wf t (insert b (?S - {n})) F2" ..
  have b: "\<exists>F'. bins_wf t (B - {n}) F'"
    by (rule bins_wfI [OF l4]) (use bB n in \<open>auto simp add: us'\<close>)
  from b obtain F' where b': "bins_wf t (B - {n}) F'" ..
  have "{x \<in> B - {n}. uses t x = 1} = {x \<in> B. uses s x = 1} - {b}"
    using nfree by (auto simp add: us')
  then have "A - {block_to_data b} = block_to_data ` {x \<in> B - {n}. uses t x = 1}"
    by (simp only: A live_remove)
  with p b' show "heap_wf base (insert_into_bin (fst (coalesce_next b s))
           (set_in_use (fst (coalesce_next b s)) 0 (snd (coalesce_next b s))))
           (A - {block_to_data b})"
    unfolding st by (rule heap_wfI)
qed

lemma free_merge_prev_wf:
  assumes pw: "phys_wf base s B" and bw: "bins_wf s B F" and bB: "b \<in> B" and us: "uses s b = 1"
    and A: "A = block_to_data ` {b \<in> B. uses s b = 1}"
    and pz: "prevs s b \<noteq> 0" and pf: "uses s (prevs s b) = 0"
    and nz: "nexts s b \<noteq> 0" and nu: "uses s (nexts s b) = 1"
  shows "heap_wf base (insert_into_bin (fst (coalesce_prev b s))
           (set_in_use (fst (coalesce_prev b s)) 0 (snd (coalesce_prev b s))))
           (A - {block_to_data b})"
    and "next_phys (mem (snd (coalesce_prev b s)) (fst (coalesce_prev b s))) \<noteq> 0"
proof -
  note w = pw [unfolded phys_wf_def]
  note D = pwf_D [OF w]
  note N = nbr_facts [OF w bB]
  define p where "p = prevs s b"
  define nx where "nx = nexts s b"
  have p: "p \<in> B" "p + 24 + sizes s p = b" "p \<noteq> b" "p \<noteq> 0"
    using N(5) [OF pz] pz by (auto simp add: p_def)
  have bb: "b \<noteq> base" using N(4) pz by simp
  have pfree: "uses s p = 0" using pf by (simp add: p_def)
  have nx: "nx = b + 24 + sizes s b" "nx \<noteq> brk s" "nx \<noteq> 0" "nx \<noteq> p"
    using N(3) [OF nz] N(2) nz p(2) by (auto simp add: nx_def)
  have sum: "sizes s p + sizes s b + 24 < 2 ^ 32"
    using D(6) [OF bB] D(6) [OF p(1)] D(1-3) p(2) by simp
  have rd: "prev_phys (mem s b) = p" "next_phys (mem s b) = nx"
    by (simp_all add: p_def nx_def prevs_def nexts_def)
  have cn: "coalesce_prev b s =
      (p, set_prev_phys nx p (set_next_phys p nx (set_in_use p 0
            (set_size p (size_b (mem s p) + (size_b (mem s b) + 24)) (remove_block p s)))))"
    using p(3)
    by (simp add: coalesce_prev_def Let_def setter_reads rd BLOCK_HEADER_SIZE_def)
  show "next_phys (mem (snd (coalesce_prev b s)) (fst (coalesce_prev b s))) \<noteq> 0"
    using nx by (simp add: cn setter_reads)
  define t where "t = insert_into_bin p (set_in_use p 0 (set_prev_phys nx p (set_next_phys p nx
      (set_in_use p 0 (set_size p (size_b (mem s p) + (size_b (mem s b) + 24)) (remove_block p s))))))"
  have st: "insert_into_bin (fst (coalesce_prev b s))
           (set_in_use (fst (coalesce_prev b s)) 0 (snd (coalesce_prev b s))) = t"
    by (simp add: cn t_def)
  have sw: "unat (size_b (mem s p) + (size_b (mem s b) + 24)) = sizes s p + 24 + sizes s b"
    using unat_sum3 [OF sum] by (simp add: sizes_def)
  have sz': "sizes t = (sizes s)(p := sizes s p + 24 + sizes s b)" by (simp add: t_def sw)
  have us': "uses t = (uses s)(p := 0)" by (simp add: t_def)
  have pp': "prevs t = (prevs s)(nx := p)" by (simp add: t_def)
  have np': "nexts t = (nexts s)(p := nx)" by (simp add: t_def)
  have ht': "heap_tail t = heap_tail s" "brk t = brk s" by (simp_all add: t_def)
  have pw': "phys_wf base t (B - {b})"
    unfolding phys_wf_def sz' us' pp' np' ht'
    using pwf_merge_prev [OF w bB bb] pf nu nx by (simp add: p_def nx_def)
  let ?S = "{b \<in> B. uses s b = 0}"
  have l0: "lists_wf s ?S F" using bw by (simp add: bins_wf_alt)
  have pS: "p \<in> ?S" using p pfree by simp
  note l1 = lists_wf_remove [OF l0 pS]
  have p1: "p \<notin> ?S - {p}" by simp
  have l2: "lists_wf (set_in_use p 0 (set_prev_phys nx p (set_next_phys p nx (set_in_use p 0
            (set_size p (size_b (mem s p) + (size_b (mem s b) + 24)) (remove_block p s))))))
      (?S - {p}) (F(size_to_bin (size_b (mem s p)) := remove1 p (F (size_to_bin (size_b (mem s p))))))"
    by (intro lists_wf_set_prev_phys lists_wf_set_next_phys lists_wf_set_size
        lists_wf_set_in_use l1 p1)
  note l3 = lists_wf_insert [OF l2 p1 p(4)]
  have "\<exists>F'. lists_wf t (insert p (?S - {p})) F'"
    unfolding t_def by (rule exI, rule l3)
  then obtain F2 where l4: "lists_wf t (insert p (?S - {p})) F2" ..
  have b: "\<exists>F'. bins_wf t (B - {b}) F'"
    by (rule bins_wfI [OF l4]) (use p pfree us in \<open>auto simp add: us'\<close>)
  from b obtain F' where b': "bins_wf t (B - {b}) F'" ..
  have "{x \<in> B - {b}. uses t x = 1} = {x \<in> B. uses s x = 1} - {b}"
    using pfree by (auto simp add: us')
  then have "A - {block_to_data b} = block_to_data ` {x \<in> B - {b}. uses t x = 1}"
    by (simp only: A live_remove)
  with pw' b' show "heap_wf base (insert_into_bin (fst (coalesce_prev b s))
           (set_in_use (fst (coalesce_prev b s)) 0 (snd (coalesce_prev b s))))
           (A - {block_to_data b})"
    unfolding st by (rule heap_wfI)
qed

lemma unat_sum5:
  assumes "a + b + c + 48 < 2 ^ 32"
  shows "unat ((word_of_nat a :: 32 word) + (word_of_nat b + 24) + (word_of_nat c + 24))
           = a + (b + 24) + (c + 24)"
proof -
  have "(word_of_nat a :: 32 word) + (word_of_nat b + 24) + (word_of_nat c + 24)
      = word_of_nat (a + (b + 24) + (c + 24))" by simp
  then show ?thesis using assms by (simp only: unat_of_nat) simp
qed

lemma free_merge_both_wf:
  assumes pw: "phys_wf base s B" and bw: "bins_wf s B F" and bB: "b \<in> B" and us: "uses s b = 1"
    and A: "A = block_to_data ` {b \<in> B. uses s b = 1}"
    and pz: "prevs s b \<noteq> 0" and pf: "uses s (prevs s b) = 0"
    and nz: "nexts s b \<noteq> 0" and nf: "uses s (nexts s b) = 0"
  shows "heap_wf base (insert_into_bin (fst (coalesce_both b s))
           (set_in_use (fst (coalesce_both b s)) 0 (snd (coalesce_both b s))))
           (A - {block_to_data b})"
    and "next_phys (mem (snd (coalesce_both b s)) (fst (coalesce_both b s))) \<noteq> 0"
proof -
  note w = pw [unfolded phys_wf_def]
  note D = pwf_D [OF w]
  note N = nbr_facts [OF w bB]
  define p where "p = prevs s b"
  define n where "n = nexts s b"
  have p: "p \<in> B" "p + 24 + sizes s p = b" "p \<noteq> b" "p \<noteq> 0"
    using N(5) [OF pz] pz by (auto simp add: p_def)
  have bb: "b \<noteq> base" using N(4) pz by simp
  have pfree: "uses s p = 0" using pf by (simp add: p_def)
  have n: "n = b + 24 + sizes s b" "n \<in> B" "n \<noteq> b" "n \<noteq> brk s" "n \<noteq> p"
    using N(3) [OF nz] N(2) nz p(2) by (auto simp add: n_def)
  have nfree: "uses s n = 0" using nf by (simp add: n_def)
  note Nn = nbr_facts [OF w n(2)]
  define nn where "nn = nexts s n"
  have Q: "n + 24 + sizes s n \<noteq> brk s" using D(14) [OF n(2) nfree] by simp
  then have nnz: "nn \<noteq> 0" using Nn(2) by (simp add: nn_def)
  have nn: "nn = n + 24 + sizes s n" "nn \<in> B" "nn \<noteq> p"
    using Nn(3) nnz n(1) p(2) by (auto simp add: nn_def)
  have sum: "sizes s p + sizes s b + sizes s n + 48 < 2 ^ 32"
    using D(6) [OF nn(2)] D(6) [OF p(1)] D(1-3) p(2) n(1) nn(1) by simp
  have rd: "prev_phys (mem s b) = p" "next_phys (mem s b) = n" "next_phys (mem s n) = nn"
    by (simp_all add: p_def n_def nn_def prevs_def nexts_def)
  define v where "v = size_b (mem s p) + (size_b (mem s b) + 24) + (size_b (mem s n) + 24)"
  have cn: "coalesce_both b s =
      (p, set_prev_phys nn p (set_next_phys p nn (set_in_use p 0
            (set_size p v
              (remove_block p (remove_block n s))))))"
    using p(3) n(5) nnz
    by (simp add: coalesce_both_def Let_def splice_next_def setter_reads rd BLOCK_HEADER_SIZE_def v_def)
  show "next_phys (mem (snd (coalesce_both b s)) (fst (coalesce_both b s))) \<noteq> 0"
    using nnz by (simp add: cn setter_reads)
  define t where "t = insert_into_bin p (set_in_use p 0 (set_prev_phys nn p (set_next_phys p nn
      (set_in_use p 0 (set_size p v (remove_block p (remove_block n s)))))))"
  have st: "insert_into_bin (fst (coalesce_both b s))
           (set_in_use (fst (coalesce_both b s)) 0 (snd (coalesce_both b s))) = t"
    by (simp add: cn t_def)
  have sw: "unat v = sizes s p + (sizes s b + 24) + (sizes s n + 24)"
    unfolding v_def using unat_sum5 [OF sum] by (simp add: sizes_def)
  have sz': "sizes t = (sizes s)(p := sizes s p + (sizes s b + 24) + (sizes s n + 24))"
    by (simp add: t_def sw)
  have us': "uses t = (uses s)(p := 0)" by (simp add: t_def)
  have pp': "prevs t = (prevs s)(nn := p)" by (simp add: t_def)
  have np': "nexts t = (nexts s)(p := nn)" by (simp add: t_def)
  have ht': "heap_tail t = heap_tail s" "brk t = brk s" by (simp_all add: t_def)
  have nt: "b + 24 + sizes s b \<noteq> brk s" using n(1,4) by simp
  have nf': "uses s (b + 24 + sizes s b) = 0" using nfree n(1) by simp
  have pw': "phys_wf base t (B - {b, n})"
    unfolding phys_wf_def sz' us' pp' np' ht'
    using pwf_merge_both [OF w bB bb pf nt nf', folded p_def]
    unfolding n(1) [symmetric] nn(1) [symmetric] .
  let ?S = "{b \<in> B. uses s b = 0}"
  have l0: "lists_wf s ?S F" using bw by (simp add: bins_wf_alt)
  have nS: "n \<in> ?S" using n nfree by simp
  note l1 = lists_wf_remove [OF l0 nS]
  have pS: "p \<in> ?S - {n}" using p pfree n by simp
  note l1' = lists_wf_remove [OF l1 pS]
  have p1: "p \<notin> ?S - {n} - {p}" by simp
  from l1' obtain Fr where lr: "lists_wf (remove_block p (remove_block n s)) (?S - {n} - {p}) Fr"
    by blast
  have "\<exists>F'. lists_wf (set_in_use p 0 (set_prev_phys nn p (set_next_phys p nn (set_in_use p 0
            (set_size p v
            (remove_block p (remove_block n s))))))) (?S - {n} - {p}) F'"
    by (rule exI [of _ Fr]) (intro lists_wf_set_prev_phys lists_wf_set_next_phys lists_wf_set_size
        lists_wf_set_in_use lr p1)
  then obtain F1 where l2: "lists_wf (set_in_use p 0 (set_prev_phys nn p (set_next_phys p nn
            (set_in_use p 0
            (set_size p v
            (remove_block p (remove_block n s))))))) (?S - {n} - {p}) F1" ..
  note l3 = lists_wf_insert [OF l2 p1 p(4)]
  have "\<exists>F'. lists_wf t (insert p (?S - {n} - {p})) F'"
    unfolding t_def by (rule exI, rule l3)
  then obtain F2 where l4: "lists_wf t (insert p (?S - {n} - {p})) F2" ..
  have b: "\<exists>F'. bins_wf t (B - {b, n}) F'"
    by (rule bins_wfI [OF l4]) (use p pfree us n in \<open>auto simp add: us'\<close>)
  from b obtain F' where b': "bins_wf t (B - {b, n}) F'" ..
  have "{x \<in> B - {b, n}. uses t x = 1} = {x \<in> B. uses s x = 1} - {b}"
    using pfree nfree by (auto simp add: us')
  then have "A - {block_to_data b} = block_to_data ` {x \<in> B - {b, n}. uses t x = 1}"
    by (simp only: A live_remove)
  with pw' b' show "heap_wf base (insert_into_bin (fst (coalesce_both b s))
           (set_in_use (fst (coalesce_both b s)) 0 (snd (coalesce_both b s))))
           (A - {block_to_data b})"
    unfolding st by (rule heap_wfI)
qed

lemma free_merge_prev_tail_wf:
  assumes pw: "phys_wf base s B" and bw: "bins_wf s B F" and bB: "b \<in> B" and us: "uses s b = 1"
    and A: "A = block_to_data ` {b \<in> B. uses s b = 1}"
    and pz: "prevs s b \<noteq> 0" and pf: "uses s (prevs s b) = 0"
    and nz: "nexts s b = 0"
  shows "heap_wf base ((unlink_block (snd (coalesce_prev_tail b s)))
           \<lparr>brk := fst (coalesce_prev_tail b s)\<rparr>) (A - {block_to_data b})"
    and "next_phys (mem (snd (coalesce_prev_tail b s)) (fst (coalesce_prev_tail b s))) = 0"
proof -
  note w = pw [unfolded phys_wf_def]
  note D = pwf_D [OF w]
  note N = nbr_facts [OF w bB]
  define p where "p = prevs s b"
  have p: "p \<in> B" "p + 24 + sizes s p = b" "p \<noteq> b" "p \<noteq> 0" "p < b"
    using N(5) [OF pz] pz by (auto simp add: p_def)
  have pfree: "uses s p = 0" using pf by (simp add: p_def)
  note Np = nbr_facts [OF w p(1)]
  have pu: "prevs s p = 0 \<or> uses s (prevs s p) = 1"
    using D(14) [OF p(1) pfree] Np(4) by auto
  have top: "x \<le> b" if "x \<in> B" for x using N(7) [OF that] N(2) nz by simp
  have Beq: "{x \<in> B. x < p} = B - {b, p}"
  proof -
    have "x < p" if "x \<in> B" "x \<noteq> b" "x \<noteq> p" for x
    proof (rule ccontr)
      assume "\<not> x < p"
      then have "p < x" using that by simp
      from D(7) [OF p(1) that(1) this] p(2) top [OF that(1)] that(2) show False by simp
    qed
    then show ?thesis using p(5) by auto
  qed
  define v where "v = size_b (mem s p) + (size_b (mem s b) + 24)"
  have rd: "prev_phys (mem s b) = p" by (simp add: p_def prevs_def)
  have cn: "coalesce_prev_tail b s =
      (p, (set_next_phys p 0 (set_in_use p 0 (set_size p v (remove_block p s))))\<lparr>heap_tail := p\<rparr>)"
    by (simp add: coalesce_prev_tail_def Let_def rd BLOCK_HEADER_SIZE_def v_def)
  show "next_phys (mem (snd (coalesce_prev_tail b s)) (fst (coalesce_prev_tail b s))) = 0"
    by (simp add: cn setter_reads)
  define t where "t = (unlink_block ((set_next_phys p 0 (set_in_use p 0 (set_size p v
      (remove_block p s))))\<lparr>heap_tail := p\<rparr>))\<lparr>brk := p\<rparr>"
  have st: "(unlink_block (snd (coalesce_prev_tail b s)))\<lparr>brk := fst (coalesce_prev_tail b s)\<rparr> = t"
    by (simp add: cn t_def)
  have nzB: "0 \<notin> B" using nbr_facts(1) [OF w] by blast
  have pw': "phys_wf base t (B - {b, p})"
    unfolding Beq [symmetric]
    by (rule pop_wf [OF pw p(1) pu])
      (use p(4) nzB in \<open>auto simp add: t_def unlink_block_def Let_def field_reads\<close>)
  let ?S = "{b \<in> B. uses s b = 0}"
  have l0: "lists_wf s ?S F" using bw by (simp add: bins_wf_alt)
  have pS: "p \<in> ?S" using p pfree by simp
  note l1 = lists_wf_remove [OF l0 pS]
  have l2: "lists_wf t (?S - {p})
      (F(size_to_bin (size_b (mem s p)) := remove1 p (F (size_to_bin (size_b (mem s p))))))"
    by (rule lists_wf_frame [OF l1]) (auto simp add: t_def unlink_block_def Let_def set_defs)
  have us': "uses t = uses s" using pfree by (auto simp add: t_def)
  have b: "\<exists>F'. bins_wf t (B - {b, p}) F'"
    by (rule bins_wfI [OF l2]) (use us in \<open>auto simp add: us'\<close>)
  from b obtain F' where b': "bins_wf t (B - {b, p}) F'" ..
  have "{x \<in> B - {b, p}. uses t x = 1} = {x \<in> B. uses s x = 1} - {b}"
    using pfree by (auto simp add: us')
  then have "A - {block_to_data b} = block_to_data ` {x \<in> B - {b, p}. uses t x = 1}"
    by (simp only: A live_remove)
  with pw' b' show "heap_wf base ((unlink_block (snd (coalesce_prev_tail b s)))
           \<lparr>brk := fst (coalesce_prev_tail b s)\<rparr>) (A - {block_to_data b})"
    unfolding st by (rule heap_wfI)
qed

lemma my_free_unfold:
  "p \<noteq> 0 \<Longrightarrow> coalesce (data_to_block p) s = c \<Longrightarrow>
     my_free p s =
       (if next_phys (mem (snd c) (fst c)) = 0 then (unlink_block (snd c))\<lparr>brk := fst c\<rparr>
        else insert_into_bin (fst c) (set_in_use (fst c) 0 (snd c)))"
  by (auto simp add: my_free_def split_def)

lemma my_free_wf:
  assumes hw: "heap_wf base s A" and pA: "p \<in> A"
  shows "heap_wf base (my_free p s) (A - {p})"
proof -
  from hw obtain B F where pw: "phys_wf base s B" and bw: "bins_wf s B F"
    and A: "A = block_to_data ` {b \<in> B. uses s b = 1}" by (rule heap_wfE)
  from pA A obtain b where b: "p = block_to_data b" "b \<in> B" "uses s b = 1" by auto
  have p0: "p \<noteq> 0" and db: "data_to_block p = b"
    using b(1) by (simp_all add: block_data_inverse) (simp add: block_to_data_eq)
  note w = pw [unfolded phys_wf_def]
  note D = pwf_D [OF w]
  note N = nbr_facts [OF w b(2)]
  define P where "P = prevs s b"
  define Nx where "Nx = nexts s b"
  have rd: "prev_phys (mem s b) = P" "next_phys (mem s b) = Nx"
    by (simp_all add: P_def Nx_def prevs_def nexts_def)
  have ru: "in_use (mem s x) = uses s x" for x by (simp add: uses_def)
  have Pu: "uses s P = 0 \<or> uses s P = 1" if "P \<noteq> 0"
  proof -
    have "P \<in> B" using N(5) [OF that [unfolded P_def]] unfolding P_def by blast
    then show ?thesis by (rule D(12))
  qed
  have Nu: "uses s Nx = 0 \<or> uses s Nx = 1" if "Nx \<noteq> 0"
  proof -
    have "Nx \<in> B" using N(3) [OF that [unfolded Nx_def]] unfolding Nx_def by blast
    then show ?thesis by (rule D(12))
  qed
  note F1 = free_no_merge_wf [OF pw bw b(2,3) A, folded P_def Nx_def]
  note F2 = free_tail_wf [OF pw bw b(2,3) A, folded P_def Nx_def]
  note F3 = free_merge_next_wf [OF pw bw b(2,3) A, folded P_def Nx_def]
  note F4 = free_merge_prev_wf [OF pw bw b(2,3) A, folded P_def Nx_def]
  note F5 = free_merge_prev_tail_wf [OF pw bw b(2,3) A, folded P_def Nx_def]
  note F6 = free_merge_both_wf [OF pw bw b(2,3) A, folded P_def Nx_def]
  consider (mboth) "P \<noteq> 0" "Nx \<noteq> 0" "uses s P = 0" "uses s Nx = 0"
    | (mprev) "P \<noteq> 0" "Nx \<noteq> 0" "uses s P = 0" "uses s Nx = 1"
    | (mnext) "P \<noteq> 0" "Nx \<noteq> 0" "uses s P = 1" "uses s Nx = 0"
    | (none) "P \<noteq> 0" "Nx \<noteq> 0" "uses s P = 1" "uses s Nx = 1"
    | (ptail) "P \<noteq> 0" "Nx = 0" "uses s P = 0"
    | (tail) "P \<noteq> 0" "Nx = 0" "uses s P = 1"
    | (first_next) "P = 0" "Nx \<noteq> 0" "uses s Nx = 0"
    | (first_none) "P = 0" "Nx \<noteq> 0" "uses s Nx = 1"
    | (only) "P = 0" "Nx = 0"
    using Pu Nu by blast
  then have "heap_wf base (my_free p s) (A - {block_to_data b})"
  proof cases
    case mboth
    then have c: "coalesce (data_to_block p) s = coalesce_both b s"
      by (simp add: coalesce_def Let_def db rd ru)
    show ?thesis
      unfolding my_free_unfold [OF p0 c] using F6 mboth by simp
  next
    case mprev
    then have c: "coalesce (data_to_block p) s = coalesce_prev b s"
      by (simp add: coalesce_def Let_def db rd ru)
    show ?thesis
      unfolding my_free_unfold [OF p0 c] using F4 mprev by simp
  next
    case mnext
    then have c: "coalesce (data_to_block p) s = coalesce_next b s"
      by (simp add: coalesce_def Let_def db rd ru)
    show ?thesis
      unfolding my_free_unfold [OF p0 c] using F3 mnext by simp
  next
    case none
    then have c: "coalesce (data_to_block p) s = (b, s)"
      by (simp add: coalesce_def Let_def db rd ru)
    show ?thesis
      unfolding my_free_unfold [OF p0 c] using F1 none by (simp add: rd)
  next
    case ptail
    then have c: "coalesce (data_to_block p) s = coalesce_prev_tail b s"
      by (simp add: coalesce_def Let_def db rd ru)
    show ?thesis
      unfolding my_free_unfold [OF p0 c] using F5 ptail by simp
  next
    case tail
    then have c: "coalesce (data_to_block p) s = (b, s)"
      by (simp add: coalesce_def Let_def db rd ru)
    show ?thesis
      unfolding my_free_unfold [OF p0 c] using F2 tail by (simp add: rd)
  next
    case first_next
    then have c: "coalesce (data_to_block p) s = coalesce_next b s"
      by (simp add: coalesce_def Let_def db rd ru)
    show ?thesis
      unfolding my_free_unfold [OF p0 c] using F3 first_next by simp
  next
    case first_none
    then have c: "coalesce (data_to_block p) s = (b, s)"
      by (simp add: coalesce_def Let_def db rd ru)
    show ?thesis
      unfolding my_free_unfold [OF p0 c] using F1 first_none by (simp add: rd)
  next
    case only
    then have c: "coalesce (data_to_block p) s = (b, s)"
      by (simp add: coalesce_def Let_def db rd ru)
    show ?thesis
      unfolding my_free_unfold [OF p0 c] using F2 only by (simp add: rd)
  qed
  then show ?thesis by (simp add: b(1))
qed

section \<open>Reachable states are well formed\<close>

lemma reach_heap_wf:
  assumes "reach lim base s A" and "lim \<le> 2 ^ 31"
  shows "heap_wf base s A"
  using assms
proof (induction rule: reach.induct)
  case (init m)
  then show ?case by (simp add: heap_wf_empty)
next
  case (malloc s A n p s')
  show ?case
  proof (cases "n = 0")
    case True
    then show ?thesis using malloc by (simp add: my_malloc_def)
  next
    case False
    have nl: "unat n < 2 ^ 31" and bl: "brk s' - base < 2 ^ 31"
      using malloc.hyps(3,4) malloc.prems by simp_all
    from malloc.IH [OF malloc.prems] have hw: "heap_wf base s A" .
    from my_malloc_wf(1,2) [OF hw False nl malloc.hyps(2) disjI2 [OF bl]]
    show ?thesis by simp
  qed
next
  case (free s A p)
  then show ?case by (simp add: my_free_wf)
next
  case (free_null s A)
  then show ?case by (simp add: my_free_def)
qed

lemma phys_blocks_eq:
  assumes pw: "phys_wf base s B"
  shows "phys_blocks s = B"
proof
  note w = pw [unfolded phys_wf_def]
  note D = pwf_D [OF w]
  show "phys_blocks s \<subseteq> B"
  proof
    fix x assume "x \<in> phys_blocks s"
    then show "x \<in> B"
    proof (induction rule: phys_blocks.induct)
      case tail
      then have "B \<noteq> {}" using D(4) by auto
      then show ?case using D(5) by simp
    next
      case (prev b)
      then show ?case using nbr_facts(5) [OF w prev.IH] by (simp add: prevs_def)
    qed
  qed
  have "b \<in> B \<longrightarrow> b \<in> phys_blocks s" if "k = brk s - b" for k b
    using that
  proof (induction k arbitrary: b rule: less_induct)
    case (less k)
    show ?case
    proof
      assume bB: "b \<in> B"
      note N = nbr_facts [OF w bB]
      show "b \<in> phys_blocks s"
      proof (cases "b + 24 + sizes s b = brk s")
        case True
        then have "heap_tail s = b" using N(6) by simp
        then show ?thesis using N(1) phys_blocks.tail [of s] by auto
      next
        case False
        define n where "n = b + 24 + sizes s b"
        have nz: "nexts s b \<noteq> 0" using N(2) False by simp
        have n: "n \<in> B" "prevs s n = b" using N(3) [OF nz] by (auto simp add: n_def)
        have "brk s - n < k" using less.prems D(6) [OF n(1)] unfolding n_def by linarith
        from less.IH [OF this refl] n(1) have "n \<in> phys_blocks s" by simp
        from phys_blocks.prev [OF this] n(2) N(1) show ?thesis by (simp add: prevs_def)
      qed
    qed
  qed
  then show "B \<subseteq> phys_blocks s" by blast
qed

lemma heap_wf_no_adjacent_free:
  assumes "heap_wf base s A"
  shows "no_adjacent_free s"
proof -
  from assms obtain B F where pw: "phys_wf base s B" by (rule heap_wfE)
  note w = pw [unfolded phys_wf_def]
  note D = pwf_D [OF w]
  have "(next_phys (mem s b) = 0 \<or> in_use (mem s (next_phys (mem s b))) = 1)
      \<and> (prev_phys (mem s b) = 0 \<or> in_use (mem s (prev_phys (mem s b))) = 1)"
    if bB: "b \<in> B" and fr: "in_use (mem s b) = 0" for b
  proof -
    have u: "uses s b = 0" using fr by (simp add: uses_def)
    note Q = D(14) [OF bB u]
    have "nexts s b = b + 24 + sizes s b" using D(8) [OF bB] Q by simp
    moreover have "prevs s b = 0" if "b = base" using D(10) [OF bB that] .
    ultimately show ?thesis using Q by (auto simp add: nexts_def prevs_def uses_def)
  qed
  then show ?thesis
    unfolding no_adjacent_free_def phys_blocks_eq [OF pw] by blast
qed

section \<open>The coalescing invariant\<close>

lemmas run_defs = my_malloc_empty malloc_grow_def link_onto_end_def set_defs block_to_data_eq
  consts_defs Let_def round_up_size_def zero_mem_def zero_header_def header_def empty_heap_def

lemma big_step1: "my_malloc 2147483520 (empty_heap zero_mem 4096) = Some (4120, big1)"
  by (simp add: run_defs big1_def)

lemma big_step2: "my_malloc 16 big1 = Some (2147487664, big2)"
  by (simp add: run_defs big1_def big2_def fun_eq_iff)

lemma big_step3: "my_malloc 16 big2 = Some (2147487704, big3)"
  by (simp add: run_defs big2_def big3_def fun_eq_iff)

lemma big_step4: "my_malloc 3221225472 big3 = Some (2147487744, big4)"
  by (simp add: run_defs big3_def big4_def fun_eq_iff)

lemma big_step5: "my_malloc 16 big4 = Some (5368713240, big5)"
  by (simp add: run_defs big4_def big5_def fun_eq_iff)


lemmas free_defs = my_free_def coalesce_def data_to_block_def ptr_add_bytes_def insert_into_bin_def
  size_to_bin_def round_up_size_def set_defs consts_defs Let_def zero_mem_def zero_header_def
  header_def

lemma big_step6: "my_free 2147487664 big5 = big6"
  by (simp add: free_defs big5_def big6_def fun_eq_iff)

lemma big_step7: "my_free 2147487744 big6 = big7"
  by (simp add: free_defs big6_def big7_def fun_eq_iff)

lemma big_first_fit: "first_fit (mem big7) 2147483648 (bins big7 63) = Some 2147487720"
  by (simp add: first_fit.simps big7_def header_def consts_defs)

lemma big_small: "malloc_small 2147483648 big7 = (0, big7)"
  by (simp add: malloc_small_def size_to_bin_def round_up_size_def consts_defs)

lemma sint_big: "sint (2147483648 :: 32 word) = - 2147483648"
  by simp

lemma big_overflow: "malloc_overflow 2147483648 big7 = Some (split_block 2147487720 (- 2147483648) big7)"
  by (simp add: malloc_overflow_def consts_defs big_first_fit) (simp add: big7_def header_def)

lemma big_remove: "remove_block 2147487720 big7 = big7\<lparr>bins := (\<lambda>_. 0)(0 := 2147487640)\<rparr>"
  by (simp add: remove_block_def big7_def header_def size_to_bin_def round_up_size_def
      consts_defs set_defs fun_eq_iff)

lemma big_offset: "ptr_add_bytes 2147487720 (to_int (- 2147483648 + int BLOCK_HEADER_SIZE)) = 4096"
  by (simp add: ptr_add_bytes_def to_int_def consts_defs)

lemma big_split: "split_block 2147487720 (- 2147483648) big7 = (2147487720, big8)"
  unfolding split_block_def Let_def big_remove big_offset
  by (simp add: big7_def big8_def insert_into_bin_def size_to_bin_def round_up_size_def
      set_defs consts_defs Let_def zero_mem_def zero_header_def header_def fun_eq_iff)

lemma big_step8: "my_malloc 2147483648 big7 = Some (2147487744, big8)"
  by (simp add: my_malloc_def round_up_size_def consts_defs big_small big_overflow big_split block_to_data_def
      ptr_add_bytes_def)

lemma big8_walk: "2147487640 \<in> phys_blocks big8"
proof -
  have a: "5368713216 \<in> phys_blocks big8"
    using phys_blocks.tail [of big8] by (simp add: big8_def)
  have b: "4096 \<in> phys_blocks big8"
    using phys_blocks.prev [OF a] by (simp add: big8_def header_def)
  have c: "2147487720 \<in> phys_blocks big8"
    using phys_blocks.prev [OF b] by (simp add: big8_def header_def)
  have d: "2147487680 \<in> phys_blocks big8"
    using phys_blocks.prev [OF c] by (simp add: big8_def header_def)
  show ?thesis
    using phys_blocks.prev [OF d] by (simp add: big8_def header_def)
qed

lemma big8_adjacent_free: "\<not> no_adjacent_free big8"
  unfolding no_adjacent_free_def
  by (rule notI, drule bspec [OF _ big8_walk]) (simp add: big8_def header_def)

lemma reach_big7: "reach (2 ^ 33) 4096 big7 {4120, 2147487704, 5368713240}"
proof -
  have r0: "reach (2 ^ 33) 4096 (empty_heap zero_mem 4096) {}"
    by (rule reach.init) simp
  have r1: "reach (2 ^ 33) 4096 big1 {4120}"
    using reach.malloc [OF r0 big_step1] by (simp add: big1_def)
  have r2: "reach (2 ^ 33) 4096 big2 {4120, 2147487664}"
    using reach.malloc [OF r1 big_step2] by (simp add: big2_def insert_commute)
  have r3: "reach (2 ^ 33) 4096 big3 {4120, 2147487664, 2147487704}"
    using reach.malloc [OF r2 big_step3] by (simp add: big3_def insert_commute)
  have r4: "reach (2 ^ 33) 4096 big4 {4120, 2147487664, 2147487704, 2147487744}"
    using reach.malloc [OF r3 big_step4] by (simp add: big4_def insert_commute)
  have r5: "reach (2 ^ 33) 4096 big5 {4120, 2147487664, 2147487704, 2147487744, 5368713240}"
    using reach.malloc [OF r4 big_step5] by (simp add: big5_def insert_commute)
  have r6: "reach (2 ^ 33) 4096 big6 {4120, 2147487704, 2147487744, 5368713240}"
    using reach.free [OF r5, of 2147487664] by (simp add: big_step6 insert_Diff_if)
  show ?thesis
    using reach.free [OF r6, of 2147487744] by (simp add: big_step7 insert_Diff_if)
qed

lemma reach_big8: "reach (2 ^ 33) 4096 big8 {4120, 2147487704, 2147487744, 5368713240}"
  using reach.malloc [OF reach_big7 big_step8] by (simp add: big8_def insert_commute)

text \<open>
  C3 (violated by the code). From the empty heap at 4096 the client allocates
  2147483520, 16, 16, 3221225472 and 16 bytes, releases the second and the
  fourth block and allocates 2147483648 bytes. Every call respects the
  preconditions. The last request is served by splitting the free block at
  2147487720; \<open>split_block\<close> receives the size, an \<open>unsigned int\<close>, in an \<open>int\<close>
  parameter, where it is \<open>- 2147483648\<close>, so the header of the residual is
  written at 4096, over the first block, which the client still holds, and
  marked free. The free block at 2147487640 is met when walking \<open>prev_phys\<close>
  from the heap tail, and its \<open>prev_phys\<close>, the block at 4096, is free as well:
  two physically adjacent blocks are both free.
\<close>

theorem adjacent_free_after_big_request:
  "my_malloc 2147483520 (empty_heap zero_mem 4096) = Some (4120, big1)
   \<and> my_malloc 16 big1 = Some (2147487664, big2)
   \<and> my_malloc 16 big2 = Some (2147487704, big3)
   \<and> my_malloc 3221225472 big3 = Some (2147487744, big4)
   \<and> my_malloc 16 big4 = Some (5368713240, big5)
   \<and> my_free 2147487664 big5 = big6
   \<and> my_free 2147487744 big6 = big7
   \<and> my_malloc 2147483648 big7 = Some (2147487744, big8)
   \<and> reach (2 ^ 33) 4096 big8 {4120, 2147487704, 2147487744, 5368713240}
   \<and> \<not> no_adjacent_free big8"
  by (simp only: big_step1 big_step2 big_step3 big_step4 big_step5 big_step6 big_step7
      big_step8 reach_big8 big8_adjacent_free simp_thms)

theorem adjacent_free_blocks:
  "2147487640 \<in> phys_blocks big8
   \<and> in_use (mem big8 2147487640) = 0
   \<and> prev_phys (mem big8 2147487640) = 4096
   \<and> in_use (mem big8 4096) = 0
   \<and> \<not> no_adjacent_free big8"
  using adjacent_free_after_big_request big8_walk by (simp add: big8_def header_def)

text \<open>
  Where the sizes and offsets fit an \<open>int\<close> the invariant holds. After every
  operation of a client that releases only null or pointers it holds, no free
  block has a free physical neighbour, provided every request is below
  \<open>2 ^ 31\<close> bytes and the heap, counted from the initial break, extends over
  less than \<open>2 ^ 31\<close> bytes after every allocation.
\<close>

theorem coalescing_invariant:
  "reach (2 ^ 31) base s A \<Longrightarrow> no_adjacent_free s"
proof -
  assume "reach (2 ^ 31) base s A"
  then have "heap_wf base s A"
    by (rule reach_heap_wf) simp
  then show ?thesis
    by (rule heap_wf_no_adjacent_free)
qed

theorem coalescing_invariant_witness:
  "reach (2 ^ 31) 4096 (my_free 4120 (two_blocks zero_mem 4096)) {4168}
   \<and> no_adjacent_free (my_free 4120 (two_blocks zero_mem 4096))"
proof -
  have r0: "reach (2 ^ 31) 4096 (empty_heap zero_mem 4096) {}"
    by (rule reach.init) simp
  have r1: "reach (2 ^ 31) 4096 (one_block zero_mem 4096) {4120}"
    using reach.malloc [OF r0 malloc_24_empty] by (simp add: one_block_def)
  have m: "my_malloc 24 (one_block zero_mem 4096) = Some (4168, two_blocks zero_mem 4096)"
    using malloc_24_one_block [of 4096 zero_mem] by simp
  have r2: "reach (2 ^ 31) 4096 (two_blocks zero_mem 4096) {4120, 4168}"
    using reach.malloc [OF r1 m] by (simp add: two_blocks_def insert_commute)
  have r3: "reach (2 ^ 31) 4096 (my_free 4120 (two_blocks zero_mem 4096)) {4168}"
    using reach.free [OF r2, of 4120] by (simp add: insert_Diff_if)
  show ?thesis
    using coalescing_invariant [OF r3] r3 by simp
qed

section \<open>What an allocation returns\<close>












lemma heap_wf_bins_sound:
  assumes "heap_wf base s A"
  shows "bins_sound s"
proof -
  from assms obtain B F where pw: "phys_wf base s B" and bw: "bins_wf s B F"
    by (rule heap_wfE)
  have lw: "lists_wf s {b \<in> B. in_use (mem s b) = 0} F"
    using bw by (simp add: bins_wf_def)
  have d: "dll (mem s) 0 (bins s OVERFLOW_BIN) (F OVERFLOW_BIN)"
    using lw by (simp add: lists_wf_def)
  have "unat (size_b (mem s (bins s i))) = MINIMUM_ALLOCATION + SIZE_MULTIPLE * i"
    if i: "i < OVERFLOW_BIN" and nz: "bins s i \<noteq> 0" for i
  proof -
    note h = bin_head [OF lw nz]
    have "bins s i \<in> B" using h(1) by simp
    then have "16 \<le> sizes s (bins s i) \<and> 8 dvd sizes s (bins s i)"
      using pwf_D(13) [OF pw [unfolded phys_wf_def]] by blast
    then have "16 \<le> unat (size_b (mem s (bins s i)))" "8 dvd unat (size_b (mem s (bins s i)))"
      by (simp_all add: sizes_def)
    from small_bin_size [OF this h(2)] i show ?thesis
      by (simp add: consts_defs)
  qed
  then show ?thesis
    unfolding bins_sound_def using d by blast
qed




section \<open>Removing a block twice\<close>









section \<open>First fit in the overflow bin\<close>

lemma first_fit_at_result:
  "first_fit_at m sz p xs c \<Longrightarrow> c = 0 \<or> sz \<le> size_b (m c) \<Longrightarrow> first_fit m sz p = Some c"
proof (induction xs arbitrary: p)
  case Nil
  then show ?case by (subst first_fit.simps) auto
next
  case (Cons x xs)
  then have "first_fit m sz (next_free (m x)) = Some c" by simp
  moreover have "p = x" "x \<noteq> 0" "\<not> sz \<le> size_b (m x)" using Cons.prems(1) by auto
  ultimately show ?case by (subst first_fit.simps) simp
qed

lemma overflow_choice:
  assumes n0: "n \<noteq> 0" and ms: "malloc_small (round_up_size n) s = (0, s)"
    and ff: "first_fit_at (mem s) (round_up_size n) (bins s OVERFLOW_BIN) xs c"
    and c0: "c \<noteq> 0" and fit: "round_up_size n \<le> size_b (mem s c)"
  shows "my_malloc n s =
     Some (block_to_data c,
           if unat (size_b (mem s c) - round_up_size n) < MINIMUM_BLOCK_SIZE
           then remove_block c (set_in_use c 1 s)
           else snd (split_block c (sint (round_up_size n)) s))"
proof -
  have f: "first_fit (mem s) (round_up_size n) (bins s OVERFLOW_BIN) = Some c"
    using first_fit_at_result [OF ff] fit by simp
  have mo: "malloc_overflow (round_up_size n) s =
      Some (if unat (size_b (mem s c) - round_up_size n) < MINIMUM_BLOCK_SIZE
            then (c, remove_block c (set_in_use c 1 s))
            else split_block c (sint (round_up_size n)) s)"
    using c0 by (simp add: malloc_overflow_def f)
  show ?thesis
    using n0 c0 by (simp add: my_malloc_def Let_def ms mo split_block_fst split_def)
qed

lemma whole_block_frame:
  "size_b (mem (remove_block c (set_in_use c 1 s)) q) = size_b (mem s q)"
  "prev_phys (mem (remove_block c (set_in_use c 1 s)) q) = prev_phys (mem s q)"
  "next_phys (mem (remove_block c (set_in_use c 1 s)) q) = next_phys (mem s q)"
  "in_use (mem (remove_block c (set_in_use c 1 s)) q) = (if q = c then 1 else in_use (mem s q))"
  "heap_tail (remove_block c (set_in_use c 1 s)) = heap_tail s"
  "brk (remove_block c (set_in_use c 1 s)) = brk s"
  by (simp_all add: set_defs)



lemma reach_two_overflow: "reach (2 ^ 31) 4096 two_overflow {4744, 6808}"
proof -
  define h1 where "h1 = \<lparr>bins = (\<lambda>_. 0), heap_tail = 4096,
      mem = zero_mem(4096 := header 600 1 0 0), brk = 4720\<rparr>"
  define h2 where "h2 = \<lparr>bins = (\<lambda>_. 0), heap_tail = 4720,
      mem = zero_mem(4096 := header 600 1 0 4720, 4720 := header 16 1 4096 0), brk = 4760\<rparr>"
  define h3 where "h3 = \<lparr>bins = (\<lambda>_. 0), heap_tail = 4760,
      mem = zero_mem(4096 := header 600 1 0 4720, 4720 := header 16 1 4096 4760,
                     4760 := header 2000 1 4720 0), brk = 6784\<rparr>"
  define h4 where "h4 = \<lparr>bins = (\<lambda>_. 0), heap_tail = 6784,
      mem = zero_mem(4096 := header 600 1 0 4720, 4720 := header 16 1 4096 4760,
                     4760 := header 2000 1 4720 6784, 6784 := header 16 1 4760 0),
      brk = 6824\<rparr>"
  define h5 where "h5 = \<lparr>bins = (\<lambda>_. 0)(63 := 4760), heap_tail = 6784,
      mem = zero_mem(4096 := header 600 1 0 4720, 4720 := header 16 1 4096 4760,
                     4760 := header 2000 0 4720 6784, 6784 := header 16 1 4760 0),
      brk = 6824\<rparr>"
  have m1: "my_malloc 600 (empty_heap zero_mem 4096) = Some (4120, h1)"
    by (simp add: run_defs h1_def)
  have m2: "my_malloc 16 h1 = Some (4744, h2)"
    by (simp add: run_defs h1_def h2_def fun_eq_iff)
  have m3: "my_malloc 2000 h2 = Some (4784, h3)"
    by (simp add: run_defs h2_def h3_def fun_eq_iff)
  have m4: "my_malloc 16 h3 = Some (6808, h4)"
    by (simp add: run_defs h3_def h4_def fun_eq_iff)
  have f1: "my_free 4784 h4 = h5"
    by (simp add: free_defs h4_def h5_def fun_eq_iff)
  have f2: "my_free 4120 h5 = two_overflow"
    by (simp add: free_defs h5_def two_overflow_def fun_eq_iff)
  have r0: "reach (2 ^ 31) 4096 (empty_heap zero_mem 4096) {}"
    by (rule reach.init) simp
  have r1: "reach (2 ^ 31) 4096 h1 {4120}"
    using reach.malloc [OF r0 m1] by (simp add: h1_def)
  have r2: "reach (2 ^ 31) 4096 h2 {4120, 4744}"
    using reach.malloc [OF r1 m2] by (simp add: h2_def insert_commute)
  have r3: "reach (2 ^ 31) 4096 h3 {4120, 4744, 4784}"
    using reach.malloc [OF r2 m3] by (simp add: h3_def insert_commute)
  have r4: "reach (2 ^ 31) 4096 h4 {4120, 4744, 4784, 6808}"
    using reach.malloc [OF r3 m4] by (simp add: h4_def insert_commute)
  have r5: "reach (2 ^ 31) 4096 h5 {4120, 4744, 6808}"
    using reach.free [OF r4, of 4784] by (simp add: f1 insert_Diff_if)
  show ?thesis
    using reach.free [OF r5, of 4120] by (simp add: f2 insert_Diff_if)
qed







section \<open>Where split_block writes the residual\<close>

lemma misplaced_offset:
  "ptr_add_bytes 2147487720 (to_int (2147483624 + int BLOCK_HEADER_SIZE)) = 4072"
  by (simp add: ptr_add_bytes_def to_int_def consts_defs)

lemma misplaced_split: "split_block 2147487720 2147483624 big7 = (2147487720, misplaced)"
  unfolding split_block_def Let_def big_remove misplaced_offset
  by (simp add: big7_def misplaced_def insert_into_bin_def size_to_bin_def round_up_size_def
      set_defs consts_defs Let_def zero_mem_def zero_header_def header_def fun_eq_iff)

lemma misplaced_first_fit:
  "first_fit_at (mem big7) 2147483624 (bins big7 OVERFLOW_BIN) [] 2147487720"
  by (simp add: big7_def consts_defs)

lemma misplaced_small: "malloc_small 2147483624 big7 = (0, big7)"
  by (simp add: malloc_small_def size_to_bin_def round_up_size_def consts_defs)

lemma misplaced_malloc: "my_malloc 2147483624 big7 = Some (2147487744, misplaced)"
proof -
  have r: "round_up_size 2147483624 = 2147483624"
    by (simp add: round_up_size_def consts_defs)
  have s: "sint (2147483624 :: 32 word) = 2147483624"
    by simp
  have z: "size_b (mem big7 2147487720) = 3221225472"
    by (simp add: big7_def header_def)
  have b: "bins big7 63 = 2147487720"
    by (simp add: big7_def)
  show ?thesis
    using overflow_choice [of 2147483624 big7 "[]" 2147487720]
    by (simp add: r s z b misplaced_first_fit misplaced_small misplaced_split block_to_data_eq
        consts_defs)
qed

text \<open>
  C5 (violated by the code). In the reachable heap \<open>big7\<close> the block at
  2147487720 is free, has 3221225472 bytes and the successor 5368713216. A
  request of 2147483624 bytes leaves more than \<open>MINIMUM_BLOCK_SIZE\<close>, so
  \<open>my_malloc\<close> calls \<open>split_block\<close> with this size, which fits an \<open>int\<close>. The
  residual belongs at \<open>2147487720 + BLOCK_HEADER_SIZE + 2147483624 =
  4294971368\<close>; the offset \<open>2147483624 + BLOCK_HEADER_SIZE\<close> is passed to
  \<open>ptr_add_bytes\<close> as an \<open>int\<close>, where it is \<open>- 2147483648\<close>, and the
  header of the residual is written at 4072, below the heap: the used block
  gets 4072 as its physical successor, the old successor and the overflow bin
  point to 4072, and nothing is written at 4294971368.
\<close>

theorem split_block_misplaces_residual:
  "reach (2 ^ 33) 4096 big7 {4120, 2147487704, 5368713240}
   \<and> in_use (mem big7 2147487720) = 0
   \<and> size_b (mem big7 2147487720) = 3221225472
   \<and> next_phys (mem big7 2147487720) = 5368713216
   \<and> MINIMUM_BLOCK_SIZE \<le> unat (3221225472 - 2147483624 :: 32 word)
   \<and> my_malloc 2147483624 big7 = Some (2147487744, misplaced)
   \<and> split_block 2147487720 2147483624 big7 = (2147487720, misplaced)
   \<and> 2147487720 + BLOCK_HEADER_SIZE + 2147483624 = 4294971368
   \<and> next_phys (mem misplaced 2147487720) = 4072
   \<and> prev_phys (mem misplaced 5368713216) = 4072
   \<and> bins misplaced OVERFLOW_BIN = 4072
   \<and> size_b (mem misplaced 4072) = 1073741824
   \<and> in_use (mem misplaced 4072) = 0
   \<and> mem misplaced 4294971368 = zero_header"
  using reach_big7
  by (simp add: misplaced_malloc misplaced_split)
    (simp add: big7_def misplaced_def header_def zero_mem_def consts_defs)

end
